theory Spec2Isabelle
  imports Complex_Main
begin

section \<open>Text: code points, whitespace, word characters\<close>

text \<open>
  A Python \<open>str\<close> is a sequence of Unicode code points. A text of this development is
  the list of its code points, each a natural number (\<open>length\<close> counts code points, as
  \<open>len\<close> does). \<open>lit\<close> reads a literal as such a list; the characters the code names
  one by one have their code points below.
\<close>

type_synonym str = "nat list"

definition lit :: "string \<Rightarrow> str" where
  "lit s = map of_char s"

abbreviation dquote :: nat where "dquote \<equiv> 0x22"
abbreviation squote :: nat where "squote \<equiv> 0x27"
abbreviation backslash :: nat where "backslash \<equiv> 0x5C"
abbreviation newline :: nat where "newline \<equiv> 0x0A"
abbreviation lbrace :: nat where "lbrace \<equiv> 0x7B"
abbreviation rbrace :: nat where "rbrace \<equiv> 0x7D"
abbreviation lbracket :: nat where "lbracket \<equiv> 0x5B"
abbreviation rbracket :: nat where "rbracket \<equiv> 0x5D"
abbreviation comma :: nat where "comma \<equiv> 0x2C"
abbreviation colon :: nat where "colon \<equiv> 0x3A"
abbreviation backtick :: nat where "backtick \<equiv> 0x60"

text \<open>
  Whitespace: \<open>str.strip()\<close>, \<open>str.isspace()\<close> and the regular-expression class \<open>\s\<close> (of a
  \<open>str\<close> pattern) share one table, the 29 code points for which CPython's
  \<open>Py_UNICODE_ISSPACE\<close> holds.
\<close>

definition is_space :: "nat \<Rightarrow> bool" where
  "is_space c =
     (c \<in> {0x09, 0x0A, 0x0B, 0x0C, 0x0D, 0x1C, 0x1D, 0x1E, 0x1F, 0x20, 0x85, 0xA0, 0x1680,
            0x2028, 0x2029, 0x202F, 0x205F, 0x3000} \<or>
      (0x2000 \<le> c \<and> c \<le> 0x200A))"

text \<open>
  Word characters: \<open>\w\<close> is "alphanumeric (\<open>str.isalnum\<close>) or underscore". The table is
  written out for the code points up to 255; above them it is the table of the Unicode
  database, the parameter \<open>alnum\<close>.
\<close>

definition is_word :: "(nat \<Rightarrow> bool) \<Rightarrow> nat \<Rightarrow> bool" where
  "is_word alnum c =
     (if c < 256 then
        (48 \<le> c \<and> c \<le> 57) \<or> (65 \<le> c \<and> c \<le> 90) \<or> c = 95 \<or> (97 \<le> c \<and> c \<le> 122) \<or>
        c \<in> {170, 178, 179, 181, 185, 186, 188, 189, 190} \<or>
        (192 \<le> c \<and> c \<le> 214) \<or> (216 \<le> c \<and> c \<le> 246) \<or> (248 \<le> c \<and> c \<le> 255)
      else alnum c)"

text \<open>\<open>s.strip()\<close>: leading and trailing whitespace removed.\<close>

definition strip :: "str \<Rightarrow> str" where
  "strip s = rev (dropWhile is_space (rev (dropWhile is_space s)))"

text \<open>\<open>s.strip(chars)\<close>: leading and trailing characters of \<open>chars\<close> removed.\<close>

definition strip_chars :: "str \<Rightarrow> str \<Rightarrow> str" where
  "strip_chars chars s =
     rev (dropWhile (\<lambda>c. c \<in> set chars) (rev (dropWhile (\<lambda>c. c \<in> set chars) s)))"

text \<open>\<open>s.find(c)\<close> for a single character: the first index, or \<open>-1\<close>.\<close>

definition find_chr :: "nat \<Rightarrow> str \<Rightarrow> int" where
  "find_chr c s = (if c \<in> set s then int (length (takeWhile (\<lambda>x. x \<noteq> c) s)) else - 1)"


section \<open>Response extractor: \<open>extraer_json_de_respuesta\<close> (llm\_utils.py)\<close>

subsection \<open>The two fenced-block patterns\<close>

text \<open>
  The source searches, with \<open>re.IGNORECASE\<close>, first
  \<^verbatim>\<open>```json\s*([\s\S]*?)\s*```\<close> and then \<^verbatim>\<open>```\s*([\s\S]*?)\s*```\<close>.
  Both have the shape  opener, \<open>\s*\<close>, a lazy group of arbitrary characters, \<open>\s*\<close>, closing
  fence. \<open>re.search\<close> returns the leftmost match. At a start position where the opener
  matches, the greedy \<open>\s*\<close> takes the whole run of whitespace and the lazy group then
  grows one character at a time until the rest of the text is whitespace followed by
  the closing fence; giving whitespace back to the group cannot produce a match that
  this search misses, because a closing position inside that run of whitespace would
  already close the empty group.

  Under \<open>IGNORECASE\<close> a lower-case ASCII letter of the pattern also matches its
  upper-case form, and \<open>s\<close> (code point 115) matches the long s (U+017F) as well; no
  other code point matches a character of the two openers.
\<close>

definition matches_ci :: "nat \<Rightarrow> nat \<Rightarrow> bool" where
  "matches_ci p c =
     (c = p \<or> (97 \<le> p \<and> p \<le> 122 \<and> c + 32 = p) \<or> (p = 115 \<and> c = 0x17F))"

fun match_prefix_ci :: "str \<Rightarrow> str \<Rightarrow> str option" where
  "match_prefix_ci [] s = Some s"
| "match_prefix_ci (p # ps) [] = None"
| "match_prefix_ci (p # ps) (c # cs) = (if matches_ci p c then match_prefix_ci ps cs else None)"

text \<open>Does the text here read \<^verbatim>\<open>\s*```\<close>?\<close>

definition closes_fence :: "str \<Rightarrow> bool" where
  "closes_fence s = (match_prefix_ci (lit ''```'') (dropWhile is_space s) \<noteq> None)"

text \<open>The lazy group: the shortest prefix after which the fence closes.\<close>

fun lazy_until_fence :: "str \<Rightarrow> str option" where
  "lazy_until_fence [] = None"
| "lazy_until_fence (c # cs) =
     (if closes_fence (c # cs) then Some []
      else map_option ((#) c) (lazy_until_fence cs))"

text \<open>\<open>re.search(opener \s*([\s\S]*?)\s*```, texto, re.IGNORECASE)\<close>: group 1 of the leftmost match.\<close>

fun re_search_fence :: "str \<Rightarrow> str \<Rightarrow> str option" where
  "re_search_fence opener [] = None"
| "re_search_fence opener (c # cs) =
     (case match_prefix_ci opener (c # cs) of
        None \<Rightarrow> re_search_fence opener cs
      | Some rest \<Rightarrow>
          (case lazy_until_fence (dropWhile is_space rest) of
             None \<Rightarrow> re_search_fence opener cs
           | Some g \<Rightarrow> Some g))"

definition starts_bracket :: "str \<Rightarrow> bool" where
  "starts_bracket s = (case s of [] \<Rightarrow> False | c # _ \<Rightarrow> c = lbrace \<or> c = lbracket)"

text \<open>One round of the loop over \<open>patrones_markdown\<close>.\<close>

definition fenced_candidate :: "str \<Rightarrow> str \<Rightarrow> str option" where
  "fenced_candidate opener texto =
     (case re_search_fence opener texto of
        None \<Rightarrow> None
      | Some g \<Rightarrow> (let json_str = strip g in if starts_bracket json_str then Some json_str else None))"

subsection \<open>The bracket counter\<close>

text \<open>
  The loop \<open>for i in range(inicio, len(texto))\<close> over the characters from \<open>inicio\<close> on, with
  its variables \<open>nivel\<close>, \<open>en_string\<close> and \<open>escape\<close>. The result is \<open>fin\<close>: \<open>i + 1\<close> at the
  \<open>break\<close>, or \<open>-1\<close> when the loop runs off the end of the text.
\<close>

fun buscar_cierre :: "nat \<Rightarrow> nat \<Rightarrow> str \<Rightarrow> nat \<Rightarrow> int \<Rightarrow> bool \<Rightarrow> bool \<Rightarrow> int" where
  "buscar_cierre char_inicio char_fin [] i nivel en_string escape = - 1"
| "buscar_cierre char_inicio char_fin (c # cs) i nivel en_string escape =
     (if escape then buscar_cierre char_inicio char_fin cs (i + 1) nivel en_string False
      else if c = backslash then buscar_cierre char_inicio char_fin cs (i + 1) nivel en_string True
      else if c = dquote then buscar_cierre char_inicio char_fin cs (i + 1) nivel (\<not> en_string) False
      else if \<not> en_string then
        (if c = char_inicio then buscar_cierre char_inicio char_fin cs (i + 1) (nivel + 1) en_string False
         else if c = char_fin then
           (if nivel - 1 = 0 then int i + 1
            else buscar_cierre char_inicio char_fin cs (i + 1) (nivel - 1) en_string False)
         else buscar_cierre char_inicio char_fin cs (i + 1) nivel en_string False)
      else buscar_cierre char_inicio char_fin cs (i + 1) nivel en_string False)"

text \<open>The slice \<open>texto[a:b]\<close> for \<open>0 \<le> a\<close>, \<open>0 \<le> b\<close>.\<close>

definition slice :: "str \<Rightarrow> int \<Rightarrow> int \<Rightarrow> str" where
  "slice s a b = take (nat b - nat a) (drop (nat a) s)"

definition extraer_json_de_respuesta :: "str \<Rightarrow> str option" where
  "extraer_json_de_respuesta texto0 =
     (if texto0 = [] \<or> strip texto0 = [] then None
      else
        let texto = strip texto0 in
        case fenced_candidate (lit ''```json'') texto of
          Some json_str \<Rightarrow> Some json_str
        | None \<Rightarrow>
       (case fenced_candidate (lit ''```'') texto of
          Some json_str \<Rightarrow> Some json_str
        | None \<Rightarrow>
          let inicio_obj = find_chr lbrace texto;
              inicio_arr = find_chr lbracket texto
          in if inicio_obj = - 1 \<and> inicio_arr = - 1 then None
             else
               let (inicio, char_inicio, char_fin) =
                     (if inicio_obj = - 1 then (inicio_arr, lbracket, rbracket)
                      else if inicio_arr = - 1 then (inicio_obj, lbrace, rbrace)
                      else if inicio_obj < inicio_arr then (inicio_obj, lbrace, rbrace)
                      else (inicio_arr, lbracket, rbracket));
                   fin = buscar_cierre char_inicio char_fin (drop (nat inicio) texto)
                           (nat inicio) 0 False False
               in if fin > inicio then Some (slice texto inicio fin) else None))"


section \<open>JSON repairer: \<open>reparar_json\<close> (llm\_utils.py)\<close>

subsection \<open>\<open>re.sub\<close> over a matcher\<close>

text \<open>
  \<open>re.sub(pattern, repl, s)\<close> scans \<open>s\<close> from left to right: at each position it tries the
  pattern; on a match it emits the replacement and goes on after the match, otherwise it
  emits the character and moves one position on. Look-behind, look-ahead and \<open>\b\<close> read
  the original text, so a matcher receives the character before the position (if any)
  and the text from the position on, and answers with the replacement and the number of
  characters the match consumes. None of the patterns below matches the empty string.
\<close>

type_synonym matcher = "nat option \<Rightarrow> str \<Rightarrow> (str \<times> nat) option"

fun re_sub :: "matcher \<Rightarrow> nat option \<Rightarrow> str \<Rightarrow> str" where
  "re_sub m prev [] = []"
| "re_sub m prev (c # cs) =
     (case m prev (c # cs) of
        None \<Rightarrow> c # re_sub m (Some c) cs
      | Some (repl, n) \<Rightarrow> repl @ re_sub m (Some ((c # cs) ! (n - 1))) (drop (n - 1) cs))"

subsection \<open>The patterns\<close>

text \<open>
  \<^verbatim>\<open>(?<=[{,:\[])\s*'([^']*?)'\s*(?=[},:\]])\<close> replaced by \<^verbatim>\<open>"\1"\<close>.
  After one of \<open>{ , : [\<close>: whitespace, a quote, the characters up to the next quote (the
  lazy group cannot step over a quote), that quote, whitespace, and then one of
  \<open>} , : ]\<close> must follow. Each \<open>\s*\<close> is followed by something that is not whitespace, so
  the match is determined by its start.
\<close>

definition comillas_simples :: matcher where
  "comillas_simples prev s =
     (case prev of
        None \<Rightarrow> None
      | Some b \<Rightarrow>
          if b \<in> {lbrace, comma, colon, lbracket} then
            (case dropWhile is_space s of
               [] \<Rightarrow> None
             | q # s2 \<Rightarrow>
                 if q = squote then
                   (case dropWhile (\<lambda>c. c \<noteq> squote) s2 of
                      [] \<Rightarrow> None
                    | _ # s3 \<Rightarrow>
                        (case dropWhile is_space s3 of
                           [] \<Rightarrow> None
                         | a # s4 \<Rightarrow>
                             if a \<in> {rbrace, comma, colon, rbracket}
                             then Some (dquote # takeWhile (\<lambda>c. c \<noteq> squote) s2 @ [dquote],
                                        length s - length (a # s4))
                             else None))
                 else None)
          else None)"

text \<open>\<^verbatim>\<open>,\s*([}\]])\<close> replaced by \<^verbatim>\<open>\1\<close>.\<close>

definition coma_final :: matcher where
  "coma_final prev s =
     (case s of
        [] \<Rightarrow> None
      | c # r \<Rightarrow>
          if c = comma then
            (case dropWhile is_space r of
               [] \<Rightarrow> None
             | b # r2 \<Rightarrow>
                 if b = rbrace \<or> b = rbracket
                 then Some ([b], length s - length r2)
                 else None)
          else None)"

text \<open>
  \<^verbatim>\<open>([{,])\s*(\w+)\s*:\<close> replaced by \<^verbatim>\<open>\1"\2":\<close>. The greedy \<open>\w+\<close> takes the whole
  run of word characters: a shorter run would leave a word character where \<open>\s*:\<close>
  has to match.
\<close>

definition clave_sin_comillas :: "(nat \<Rightarrow> bool) \<Rightarrow> matcher" where
  "clave_sin_comillas alnum prev s =
     (case s of
        [] \<Rightarrow> None
      | d # r \<Rightarrow>
          if d = lbrace \<or> d = comma then
            (let r1 = dropWhile is_space r;
                 w = takeWhile (is_word alnum) r1
             in if w = [] then None
                else
                  (case dropWhile is_space (dropWhile (is_word alnum) r1) of
                     [] \<Rightarrow> None
                   | a # r3 \<Rightarrow>
                       if a = colon
                       then Some (d # dquote # w @ [dquote, colon], length s - length r3)
                       else None))
          else None)"

text \<open>
  \<^verbatim>\<open>\bTrue\b\<close> and its two siblings: the word itself, with no word character
  directly before or after it.
\<close>

definition palabra :: "(nat \<Rightarrow> bool) \<Rightarrow> str \<Rightarrow> str \<Rightarrow> matcher" where
  "palabra alnum w repl prev s =
     (if (case prev of None \<Rightarrow> False | Some b \<Rightarrow> is_word alnum b) then None
      else if take (length w) s = w \<and>
              (case drop (length w) s of [] \<Rightarrow> True | a # _ \<Rightarrow> \<not> is_word alnum a)
      then Some (repl, length w)
      else None)"

text \<open>
  \<^verbatim>\<open>(?<!\\)\n(?=[^"]*"(?:[^"]*"[^"]*")*[^"]*$)\<close> replaced by a backslash and \<open>n\<close>: a newline
  that no backslash precedes and after which the text holds an odd number of double
  quotes (the look-ahead reads one quote, then pairs of quotes, up to the end of the
  text; its classes also match newlines, so \<open>$\<close> is the very end).
\<close>

definition salto_en_string :: matcher where
  "salto_en_string prev s =
     (case s of
        [] \<Rightarrow> None
      | c # r \<Rightarrow>
          if c = newline \<and> prev \<noteq> Some backslash \<and> odd (length (filter (\<lambda>x. x = dquote) r))
          then Some (backslash # lit ''n'', 1)
          else None)"

subsection \<open>The function\<close>

text \<open>
  The first pass is \<open>resultado.strip(chars)\<close> with the four invisible characters U+FEFF
  (byte order mark), U+200B, U+200C and U+200D (zero width space, non-joiner, joiner).
  The seven substitutions follow in the order of the source. \<open>alnum\<close> is the table \<open>\w\<close>
  and \<open>\b\<close> consult above code point 255.
\<close>

definition invisibles :: str where
  "invisibles = [0xFEFF, 0x200B, 0x200C, 0x200D]"

definition reparar_json :: "(nat \<Rightarrow> bool) \<Rightarrow> str \<Rightarrow> str" where
  "reparar_json alnum json_str =
     (if json_str = [] then json_str
      else
        let resultado = strip_chars invisibles json_str;
            resultado = re_sub comillas_simples None resultado;
            resultado = re_sub coma_final None resultado;
            resultado = re_sub (clave_sin_comillas alnum) None resultado;
            resultado = re_sub (palabra alnum (lit ''True'') (lit ''true'')) None resultado;
            resultado = re_sub (palabra alnum (lit ''False'') (lit ''false'')) None resultado;
            resultado = re_sub (palabra alnum (lit ''None'') (lit ''null'')) None resultado;
            resultado = re_sub salto_en_string None resultado
        in resultado)"


section \<open>Exceptions and Python values\<close>

text \<open>
  Every \<open>raise\<close> is a value: a computation that may raise returns \<open>exn + 'a\<close>, with \<open>Inl\<close>
  the exception. The classes are those the two modules raise, catch or let through.
  \<open>ValueError\<close> carries its message; \<open>BackendError\<close> stands for whatever the backend
  client raises. \<open>LLMQuotaExhaustedError\<close> carries its message and its cause
  (\<open>raise ... from e\<close>). The message of \<open>LLMRetryExhaustedError\<close> is built from three
  values, which the constructor keeps apart: the number of attempts \<open>retries + 1\<close>, the
  last error, and the last response cut to 300 characters (absent when the response is
  \<open>None\<close> or empty).
\<close>

datatype exn =
    JSONDecodeError
  | SyntaxError
  | TypeError
  | KeyError str
  | ValueError str
  | ValidationError
  | OutputParserException
  | BackendError str
  | LLMQuotaExhaustedError str exn
  | LLMRetryExhaustedError int "exn option" "str option"

text \<open>\<open>isinstance(e, ValueError)\<close>: the class and its subclasses.\<close>

fun is_ValueError :: "exn \<Rightarrow> bool" where
  "is_ValueError JSONDecodeError = True"
| "is_ValueError (ValueError msg) = True"
| "is_ValueError ValidationError = True"
| "is_ValueError OutputParserException = True"
| "is_ValueError e = False"

datatype pyval =
    PNone
  | PBool bool
  | PInt int
  | PFloat real
  | PStr str
  | PList "pyval list"
  | PTuple "pyval list"
  | PSet "pyval list"
  | PDict "(pyval \<times> pyval) list"

text \<open>
  \<open>modelo(**data)\<close>: \<open>data\<close> must be a mapping whose keys are strings, otherwise the call
  itself raises \<open>TypeError\<close> before the model sees anything.
\<close>

fun str_keys :: "(pyval \<times> pyval) list \<Rightarrow> (str \<times> pyval) list option" where
  "str_keys [] = Some []"
| "str_keys ((PStr k, v) # kvs) = map_option ((#) (k, v)) (str_keys kvs)"
| "str_keys ((k, v) # kvs) = None"

definition construir :: "((str \<times> pyval) list \<Rightarrow> exn + 'm) \<Rightarrow> pyval \<Rightarrow> exn + 'm" where
  "construir modelo data =
     (case data of
        PDict kvs \<Rightarrow> (case str_keys kvs of None \<Rightarrow> Inl TypeError | Some kwargs \<Rightarrow> modelo kwargs)
      | _ \<Rightarrow> Inl TypeError)"

text \<open>
  What the two modules import and this development does not define: the JSON decoder
  and the literal evaluator of the standard library, \<open>is_openai_quota_error\<close>, which
  \<open>llm_provider.py\<close> imports from \<open>llm_utils\<close>, and the table of alphanumeric code points
  above 255 that the regular-expression engine reads from the Unicode database
  (\<open>unicode_alnum\<close>). They are parameters.
\<close>

record entorno =
  json_loads :: "str \<Rightarrow> exn + pyval"
  literal_eval :: "str \<Rightarrow> exn + pyval"
  is_openai_quota_error :: "exn \<Rightarrow> bool"
  unicode_alnum :: "nat \<Rightarrow> bool"


section \<open>Structured parser: \<open>parsear_json_seguro\<close>, \<open>parsear_pydantic_seguro\<close> (llm\_utils.py)\<close>

text \<open>The function returns \<open>None\<close> as \<^term>\<open>PNone\<close>; an exception no handler catches leaves it.\<close>

definition parsear_json_seguro :: "'a entorno_scheme \<Rightarrow> str \<Rightarrow> exn + pyval" where
  "parsear_json_seguro E texto =
     (if texto = [] then Inr PNone
      else
        case extraer_json_de_respuesta texto of
          None \<Rightarrow> Inr PNone
        | Some json_str \<Rightarrow>
            if json_str = [] then Inr PNone
            else
              (case json_loads E json_str of
                 Inr v \<Rightarrow> Inr v
               | Inl e1 \<Rightarrow>
                   if e1 \<noteq> JSONDecodeError then Inl e1
                   else
                     (case json_loads E (reparar_json (unicode_alnum E) json_str) of
                        Inr v \<Rightarrow> Inr v
                      | Inl e2 \<Rightarrow>
                          if e2 \<noteq> JSONDecodeError then Inl e2
                          else
                            (case literal_eval E json_str of
                               Inr v \<Rightarrow> Inr v
                             | Inl e3 \<Rightarrow>
                                 if is_ValueError e3 \<or> e3 = SyntaxError then Inr PNone
                                 else Inl e3))))"

text \<open>
  The block the source repeats three times:
  \<open>if valores_default: try: return modelo(**valores_default) except ValidationError: return None\<close>
  and then \<open>return None\<close>. An empty dictionary is false.
\<close>

definition usar_default ::
  "((str \<times> pyval) list \<Rightarrow> exn + 'm) \<Rightarrow> (str \<times> pyval) list option \<Rightarrow> exn + 'm option" where
  "usar_default modelo valores_default =
     (case valores_default of
        None \<Rightarrow> Inr None
      | Some d \<Rightarrow>
          if d = [] then Inr None
          else
            (case modelo d of
               Inr m \<Rightarrow> Inr (Some m)
             | Inl e \<Rightarrow> if e = ValidationError then Inr None else Inl e))"

definition parsear_pydantic_seguro ::
  "'a entorno_scheme \<Rightarrow> str \<Rightarrow> ((str \<times> pyval) list \<Rightarrow> exn + 'm) \<Rightarrow>
     (str \<times> pyval) list option \<Rightarrow> exn + 'm option" where
  "parsear_pydantic_seguro E texto modelo valores_default =
     (if texto = [] then usar_default modelo valores_default
      else
        case parsear_json_seguro E texto of
          Inl e \<Rightarrow> Inl e
        | Inr data \<Rightarrow>
            if data = PNone then usar_default modelo valores_default
            else
              (case construir modelo data of
                 Inr m \<Rightarrow> Inr (Some m)
               | Inl e \<Rightarrow>
                   if e = ValidationError then usar_default modelo valores_default
                   else Inl e))"


section \<open>Robust chain: \<open>RobustStructuredChain.invoke\<close> (llm\_provider.py)\<close>

text \<open>
  The chain holds its collaborators. The backend is stateful: \<open>llm k prompt\<close> is what the
  call \<open>self.llm.invoke(prompt)\<close> does when \<open>k\<close> calls have been made before (the text of
  the response, or the exception). \<open>prompt\<close> is \<open>self.prompt.format(**input_data)\<close>,
  \<open>parser\<close> is \<open>self.parser.parse\<close>, \<open>pydantic_model\<close> the call of the model class on keyword
  arguments.
\<close>

record 'm robust_chain =
  llm :: "nat \<Rightarrow> str \<Rightarrow> exn + str"
  prompt :: "(str \<times> str) list \<Rightarrow> exn + str"
  pydantic_model :: "(str \<times> pyval) list \<Rightarrow> exn + 'm"
  parser :: "str \<Rightarrow> exn + 'm"
  chain_max_retries :: int
  retry_delay :: real

text \<open>
  What \<open>invoke\<close> does to the world, in order: the calls of the backend, the two parsing
  stages it enters, and its own log lines. \<open>Sleep\<close> is \<open>time.sleep\<close>.
\<close>

datatype log_level = Debug | Info | Warning

datatype event =
    Llm_invoke str
  | Parser_parse str
  | Parsear_seguro str
  | Logged log_level
  | Sleep real

fun es_llamada :: "event \<Rightarrow> bool" where
  "es_llamada (Llm_invoke p) = True"
| "es_llamada e = False"

definition llamadas :: "event list \<Rightarrow> nat" where
  "llamadas evs = length (filter es_llamada evs)"

record estado =
  ultimo_error :: "exn option"
  ultima_respuesta :: "str option"
  eventos :: "event list"

definition msg_respuesta_vacia :: str where
  "msg_respuesta_vacia = lit ''Respuesta vac'' @ [0xED] @ lit ''a del LLM''"

definition msg_no_parsear :: "str \<Rightarrow> str" where
  "msg_no_parsear texto = lit ''No se pudo parsear respuesta: '' @ take 200 texto @ lit ''...''"

definition msg_quota :: str where
  "msg_quota =
     lit ''OPENAI_QUOTA_EXHAUSTED: Tu API key de OpenAI no tiene cr'' @ [0xE9] @
     lit ''ditos disponibles. Agrega fondos en https://platform.openai.com/account/billing '' @
     lit ''o cambia al modo de IA local (Ollama) en la configuraci'' @ [0xF3] @ lit ''n.''"

text \<open>The body of the \<open>try\<close>: it returns a value or raises.\<close>

definition cuerpo ::
  "'m robust_chain \<Rightarrow> 'a entorno_scheme \<Rightarrow> (str \<times> str) list \<Rightarrow>
     (str \<times> pyval) list option \<Rightarrow> estado \<Rightarrow> (exn + 'm) \<times> estado" where
  "cuerpo self E input_data default_value s =
     (case prompt self input_data of
        Inl e \<Rightarrow> (Inl e, s)
      | Inr prompt_str \<Rightarrow>
          let s1 = s\<lparr>eventos := eventos s @ [Llm_invoke prompt_str]\<rparr> in
          (case llm self (llamadas (eventos s)) prompt_str of
             Inl e \<Rightarrow> (Inl e, s1)
           | Inr texto \<Rightarrow>
               let s2 = s1\<lparr>ultima_respuesta := Some texto\<rparr> in
               if texto = [] \<or> strip texto = [] then (Inl (ValueError msg_respuesta_vacia), s2)
               else
                 let s3 = s2\<lparr>eventos := eventos s2 @ [Parser_parse texto]\<rparr> in
                 (case parser self texto of
                    Inr m \<Rightarrow> (Inr m, s3)
                  | Inl parse_error \<Rightarrow>
                      let s4 = s3\<lparr>eventos := eventos s3 @ [Logged Debug, Parsear_seguro texto]\<rparr> in
                      (case parsear_pydantic_seguro E texto (pydantic_model self) default_value of
                         Inl e \<Rightarrow> (Inl e, s4)
                       | Inr (Some resultado) \<Rightarrow> (Inr resultado, s4)
                       | Inr None \<Rightarrow> (Inl (ValueError (msg_no_parsear texto)), s4)))))"

text \<open>
  The loop \<open>for intento in range(retries + 1)\<close> with its handler \<open>except Exception as e\<close>.
  \<open>Some r\<close>: the loop was left by \<open>return\<close> or by the \<open>raise\<close> of the handler; \<open>None\<close>: it
  ran to its end.
\<close>

fun bucle ::
  "'m robust_chain \<Rightarrow> 'a entorno_scheme \<Rightarrow> (str \<times> str) list \<Rightarrow>
     (str \<times> pyval) list option \<Rightarrow> int \<Rightarrow> nat list \<Rightarrow> estado \<Rightarrow> (exn + 'm) option \<times> estado" where
  "bucle self E input_data default_value retries [] s = (None, s)"
| "bucle self E input_data default_value retries (intento # resto) s =
     (case cuerpo self E input_data default_value s of
        (Inr resultado, s') \<Rightarrow> (Some (Inr resultado), s')
      | (Inl e, s') \<Rightarrow>
          if is_openai_quota_error E e then (Some (Inl (LLMQuotaExhaustedError msg_quota e)), s')
          else
            bucle self E input_data default_value retries resto
              (s'\<lparr>ultimo_error := Some e,
                  eventos := eventos s' @ [Logged Warning] @
                    (if int intento < retries then [Logged Info] else [])\<rparr>))"

definition agotado :: "int \<Rightarrow> estado \<Rightarrow> exn" where
  "agotado retries s =
     LLMRetryExhaustedError (retries + 1) (ultimo_error s)
       (case ultima_respuesta s of
          None \<Rightarrow> None
        | Some r \<Rightarrow> if r = [] then None else Some (take 300 r))"

text \<open>\<open>invoke\<close> returns its result (a value, or the exception it raises) and its events.\<close>

definition invoke ::
  "'m robust_chain \<Rightarrow> 'a entorno_scheme \<Rightarrow> (str \<times> str) list \<Rightarrow>
     (str \<times> pyval) list option \<Rightarrow> int option \<Rightarrow> (exn + 'm) \<times> event list" where
  "invoke self E input_data default_value max_retries_arg =
     (let retries = (case max_retries_arg of Some r \<Rightarrow> r | None \<Rightarrow> chain_max_retries self);
          s0 = \<lparr>ultimo_error = None, ultima_respuesta = None, eventos = []\<rparr>
      in case bucle self E input_data default_value retries [0..<nat (retries + 1)] s0 of
           (Some r, s) \<Rightarrow> (r, eventos s)
         | (None, s) \<Rightarrow>
             (case default_value of
                None \<Rightarrow> (Inl (agotado retries s), eventos s)
              | Some d \<Rightarrow>
                  (case pydantic_model self d of
                     Inr m \<Rightarrow> (Inr m, eventos s @ [Logged Warning])
                   | Inl e \<Rightarrow> (Inl (agotado retries s), eventos s @ [Logged Warning]))))"


section \<open>Notions the properties are stated with\<close>

subsection \<open>Objects with strings\<close>

text \<open>
  The text between the two quotes of a string literal: any characters but the quote and
  the backslash, and escapes (a backslash and the character after it).
\<close>

inductive cuerpo_string :: "str \<Rightarrow> bool" where
  cs_vacio: "cuerpo_string []"
| cs_simple: "c \<noteq> dquote \<Longrightarrow> c \<noteq> backslash \<Longrightarrow> cuerpo_string w \<Longrightarrow> cuerpo_string (c # w)"
| cs_escape: "cuerpo_string w \<Longrightarrow> cuerpo_string (backslash # c # w)"

text \<open>
  The text between the braces of an object: characters other than braces, quotes and
  backslashes; string literals, whose bodies may hold any of these; nested objects.
  Every JSON object has this shape (outside its strings a JSON text has no backslash and
  no lone quote).
\<close>

inductive equilibrado :: "str \<Rightarrow> bool" where
  eq_vacio: "equilibrado []"
| eq_simple: "c \<noteq> lbrace \<Longrightarrow> c \<noteq> rbrace \<Longrightarrow> c \<noteq> dquote \<Longrightarrow> c \<noteq> backslash \<Longrightarrow>
     equilibrado w \<Longrightarrow> equilibrado (c # w)"
| eq_string: "cuerpo_string b \<Longrightarrow> equilibrado w \<Longrightarrow> equilibrado (dquote # b @ dquote # w)"
| eq_objeto: "equilibrado u \<Longrightarrow> equilibrado w \<Longrightarrow> equilibrado (lbrace # u @ rbrace # w)"

text \<open>Does the text hold a code fence (three backticks in a row)?\<close>

fun tiene_cerca :: "str \<Rightarrow> bool" where
  "tiene_cerca [] = False"
| "tiene_cerca (c # cs) = (take 3 (c # cs) = lit ''```'' \<or> tiene_cerca cs)"

subsection \<open>Waiting between attempts\<close>

text \<open>
  \<open>espera_entre_llamadas pendiente evs\<close>: no two calls of the backend in \<open>evs\<close> follow each
  other without a \<open>Sleep\<close> between them (\<open>pendiente\<close>: a call has been made and no wait
  since).
\<close>

fun espera_entre_llamadas :: "bool \<Rightarrow> event list \<Rightarrow> bool" where
  "espera_entre_llamadas pendiente [] = True"
| "espera_entre_llamadas pendiente (Llm_invoke p # evs) =
     (\<not> pendiente \<and> espera_entre_llamadas True evs)"
| "espera_entre_llamadas pendiente (Sleep d # evs) = espera_entre_llamadas False evs"
| "espera_entre_llamadas pendiente (e # evs) = espera_entre_llamadas pendiente evs"

fun es_espera :: "event \<Rightarrow> bool" where
  "es_espera (Sleep d) = True"
| "es_espera e = False"

subsection \<open>Failed attempts\<close>



text \<open>An attempt made in state \<open>s\<close> fails: the body raises, and the handler does not re-raise.\<close>

definition intento_falla ::
  "'m robust_chain \<Rightarrow> 'a entorno_scheme \<Rightarrow> (str \<times> str) list \<Rightarrow>
     (str \<times> pyval) list option \<Rightarrow> estado \<Rightarrow> bool" where
  "intento_falla self E input_data default_value s =
     (case fst (cuerpo self E input_data default_value s) of
        Inl e \<Rightarrow> \<not> is_openai_quota_error E e
      | Inr m \<Rightarrow> False)"

text \<open>The log lines of the handler in iteration \<open>intento\<close>.\<close>

definition lineas_fallo :: "int \<Rightarrow> nat \<Rightarrow> event list" where
  "lineas_fallo retries intento =
     Logged Warning # (if int intento < retries then [Logged Info] else [])"

subsection \<open>Texts the repairer leaves alone\<close>

text \<open>\<open>coincide m prev s\<close>: the pattern \<open>m\<close> matches at some position of \<open>s\<close>.\<close>

fun coincide :: "matcher \<Rightarrow> nat option \<Rightarrow> str \<Rightarrow> bool" where
  "coincide m prev [] = False"
| "coincide m prev (c # cs) = (m prev (c # cs) \<noteq> None \<or> coincide m (Some c) cs)"

text \<open>None of the patterns of \<open>reparar_json\<close> matches anywhere in the text.\<close>

definition sin_reparaciones :: "(nat \<Rightarrow> bool) \<Rightarrow> str \<Rightarrow> bool" where
  "sin_reparaciones alnum x =
     (\<not> coincide comillas_simples None x \<and>
      \<not> coincide coma_final None x \<and>
      \<not> coincide (clave_sin_comillas alnum) None x \<and>
      \<not> coincide (palabra alnum (lit ''True'') (lit ''true'')) None x \<and>
      \<not> coincide (palabra alnum (lit ''False'') (lit ''false'')) None x \<and>
      \<not> coincide (palabra alnum (lit ''None'') (lit ''null'')) None x \<and>
      \<not> coincide salto_en_string None x)"

text \<open>
  The repairer finds nothing to do in a text: the text neither begins nor ends with one
  of the four invisible characters, and none of the patterns matches in it.
\<close>

definition intacto :: "(nat \<Rightarrow> bool) \<Rightarrow> str \<Rightarrow> bool" where
  "intacto alnum x = (strip_chars invisibles x = x \<and> sin_reparaciones alnum x)"

subsection \<open>A scenario: the schema \<open>{label: str}\<close> and the template \<open>Label: {kw}\<close>\<close>

record etiqueta =
  label :: str

text \<open>The model class of the scenario: one required field \<open>label\<close>, a string.\<close>

definition modelo_label :: "(str \<times> pyval) list \<Rightarrow> exn + etiqueta" where
  "modelo_label kwargs =
     (case map_of kwargs (lit ''label'') of
        Some (PStr x) \<Rightarrow> Inr \<lparr>label = x\<rparr>
      | _ \<Rightarrow> Inl ValidationError)"

text \<open>
  What formatting the template \<open>Label: {kw}\<close> does: the value bound to \<open>kw\<close> in place of
  the placeholder, \<open>KeyError\<close> when nothing is bound to it.
\<close>

definition formato_label :: "(str \<times> str) list \<Rightarrow> exn + str" where
  "formato_label input_data =
     (case map_of input_data (lit ''kw'') of
        None \<Rightarrow> Inl (KeyError (lit ''kw''))
      | Some v \<Rightarrow> Inr (lit ''Label: '' @ v))"

text \<open>
  The environment of the scenario. Its decoder knows the one JSON text the scenario
  decodes and rejects everything else the scenario gives it (texts that are not JSON);
  its quota test recognises the one error the scenario's backend raises for an
  exhausted quota. No text of the scenario has a code point above 255, where
  \<open>unicode_alnum\<close> is read.
\<close>

definition entorno_label :: entorno where
  "entorno_label =
     \<lparr>json_loads = (\<lambda>s. if s = lit ''{\"label\":\"Beach Sunset\"}''
                         then Inr (PDict [(PStr (lit ''label''), PStr (lit ''Beach Sunset''))])
                         else Inl JSONDecodeError),
      literal_eval = (\<lambda>s. Inl SyntaxError),
      is_openai_quota_error = (\<lambda>e. e = BackendError (lit ''insufficient_quota'')),
      unicode_alnum = (\<lambda>c. False)\<rparr>"

text \<open>The chain of the scenario over a backend; its parser raises on every response used below.\<close>

definition cadena_label :: "(nat \<Rightarrow> str \<Rightarrow> exn + str) \<Rightarrow> etiqueta robust_chain" where
  "cadena_label backend =
     \<lparr>llm = backend, prompt = formato_label, pydantic_model = modelo_label,
      parser = (\<lambda>texto. Inl OutputParserException), chain_max_retries = 3, retry_delay = 1\<rparr>"






section \<open>Properties\<close>

subsection \<open>Literals\<close>

lemma lit_igual [simp]: "(lit a = lit b) = (a = b)"
  by (simp add: lit_def inj_map_eq_map inj_on_def)

lemma lit_append [simp]: "lit a @ lit b = lit (a @ b)"
  by (simp add: lit_def)

lemma lit_append_cons [simp]: "lit a @ lit b @ r = lit (a @ b) @ r"
  by (simp add: lit_def)

lemma lit_vacio [simp]: "(lit a = []) = (a = [])"
  by (simp add: lit_def)

lemma vacio_lit [simp]: "([] = lit a) = (a = [])"
  by (auto simp add: lit_def)

lemma length_lit [simp]: "length (lit a) = length a"
  by (simp add: lit_def)


subsection \<open>The body of an attempt\<close>

lemma cuerpo_formato_falla:
  "prompt self input_data = Inl e \<Longrightarrow> cuerpo self E input_data d s = (Inl e, s)"
  by (simp add: cuerpo_def)

lemma cuerpo_backend_falla:
  "prompt self input_data = Inr p \<Longrightarrow> llm self (llamadas (eventos s)) p = Inl e \<Longrightarrow>
   cuerpo self E input_data d s = (Inl e, s\<lparr>eventos := eventos s @ [Llm_invoke p]\<rparr>)"
  by (simp add: cuerpo_def)

lemma cuerpo_vacia:
  "prompt self input_data = Inr p \<Longrightarrow> llm self (llamadas (eventos s)) p = Inr t \<Longrightarrow>
   t = [] \<or> strip t = [] \<Longrightarrow>
   cuerpo self E input_data d s =
     (Inl (ValueError msg_respuesta_vacia),
      s\<lparr>eventos := eventos s @ [Llm_invoke p], ultima_respuesta := Some t\<rparr>)"
  by (auto simp add: cuerpo_def Let_def)

lemma cuerpo_parser_ok:
  "prompt self input_data = Inr p \<Longrightarrow> llm self (llamadas (eventos s)) p = Inr t \<Longrightarrow>
   t \<noteq> [] \<Longrightarrow> strip t \<noteq> [] \<Longrightarrow> parser self t = Inr m \<Longrightarrow>
   cuerpo self E input_data d s =
     (Inr m, s\<lparr>eventos := eventos s @ [Llm_invoke p, Parser_parse t], ultima_respuesta := Some t\<rparr>)"
  by (simp add: cuerpo_def Let_def)


lemma llamadas_append: "llamadas (xs @ ys) = llamadas xs + llamadas ys"
  by (simp add: llamadas_def)

lemma llamadas_nil: "llamadas [] = 0"
  by (simp add: llamadas_def)

lemma llamadas_cons: "llamadas (e # evs) = (if es_llamada e then 1 else 0) + llamadas evs"
  by (simp add: llamadas_def)

lemma rango_intentos: "0 \<le> retries \<Longrightarrow> [0..<nat (retries + 1)] = 0 # [1..<nat (retries + 1)]"
  by (simp add: upt_conv_Cons)

lemma rango_2: "[0..<2] = [0, 1::nat]"
  by (simp add: upt_rec)

lemma rango_3: "[0..<3] = [0, 1, 2::nat]"
  by (simp add: upt_rec)

lemma rango_4: "[0..<4] = [0, 1, 2, 3::nat]"
  by (simp add: upt_rec)


lemmas escenario_defs =
  cadena_label_def entorno_label_def formato_label_def modelo_label_def

subsection \<open>Quota errors end the loop\<close>

text \<open>
  C2. When the first call of the backend raises an error that \<open>is_openai_quota_error\<close>
  recognises, \<open>invoke\<close> makes that one call and no other, whatever the number of retries,
  and raises \<open>LLMQuotaExhaustedError\<close> with the remediation message and the backend's
  error as its cause.
\<close>

theorem cuota_sin_reintento:
  assumes "prompt self input_data = Inr p"
    and "llm self 0 p = Inl e"
    and "is_openai_quota_error E e"
    and "retries = (case max_retries_arg of Some r \<Rightarrow> r | None \<Rightarrow> chain_max_retries self)"
    and "0 \<le> retries"
  shows "invoke self E input_data default_value max_retries_arg =
           (Inl (LLMQuotaExhaustedError msg_quota e), [Llm_invoke p])"
proof -
  let ?s0 = "\<lparr>ultimo_error = None, ultima_respuesta = None, eventos = []\<rparr>"
  have c: "cuerpo self E input_data default_value ?s0 = (Inl e, ?s0\<lparr>eventos := [Llm_invoke p]\<rparr>)"
    using cuerpo_backend_falla [of self input_data p ?s0 e E default_value] assms(1,2)
    by (simp add: llamadas_nil)
  have "bucle self E input_data default_value retries [0..<nat (retries + 1)] ?s0 =
          (Some (Inl (LLMQuotaExhaustedError msg_quota e)), ?s0\<lparr>eventos := [Llm_invoke p]\<rparr>)"
    using c assms(3) by (simp add: rango_intentos [OF assms(5)])
  then show ?thesis
    using assms(4) by (simp add: invoke_def)
qed

theorem cuota_sin_reintento_witness:
  "invoke (cadena_label (\<lambda>k p. Inl (BackendError (lit ''insufficient_quota'')))) entorno_label
      [(lit ''kw'', lit ''beach, sunset'')] None None =
   (Inl (LLMQuotaExhaustedError msg_quota (BackendError (lit ''insufficient_quota''))),
    [Llm_invoke (lit ''Label: beach, sunset'')])"
proof -
  let ?c = "cadena_label (\<lambda>k p. Inl (BackendError (lit ''insufficient_quota'')))"
  have h1: "prompt ?c [(lit ''kw'', lit ''beach, sunset'')] = Inr (lit ''Label: beach, sunset'')"
    by (simp add: cadena_label_def formato_label_def)
  have h2: "llm ?c 0 (lit ''Label: beach, sunset'') = Inl (BackendError (lit ''insufficient_quota''))"
    by (simp add: cadena_label_def)
  have h3: "is_openai_quota_error entorno_label (BackendError (lit ''insufficient_quota''))"
    by (simp add: entorno_label_def)
  have h4: "3 = (case None of Some r \<Rightarrow> r | None \<Rightarrow> chain_max_retries ?c)"
    by (simp add: cadena_label_def)
  have h5: "(0::int) \<le> 3"
    by simp
  show ?thesis
    by (rule cuota_sin_reintento [OF h1 h2 h3 h4 h5])
qed

subsection \<open>No wait between attempts\<close>

lemma esperas_cuerpo:
  "filter es_espera (eventos (snd (cuerpo self E input_data d s))) = filter es_espera (eventos s)"
  by (simp add: cuerpo_def Let_def split: sum.splits option.splits)

lemma esperas_bucle:
  "filter es_espera (eventos (snd (bucle self E input_data d retries xs s))) =
   filter es_espera (eventos s)"
proof (induction xs arbitrary: s)
  case Nil
  then show ?case by simp
next
  case (Cons intento resto)
  obtain r s' where c: "cuerpo self E input_data d s = (r, s')"
    by (cases "cuerpo self E input_data d s")
  have e: "filter es_espera (eventos s') = filter es_espera (eventos s)"
    using esperas_cuerpo [of self E input_data d s] c by simp
  show ?case
    using c e Cons.IH by (cases r) simp_all
qed


text \<open>
  No run of \<open>invoke\<close> contains a \<open>Sleep\<close>: the function has no \<open>time.sleep\<close>, and neither
  \<open>retry_delay\<close> nor \<open>get_delay\<close> is read.
\<close>

lemma invoke_sin_esperas:
  "filter es_espera (snd (invoke self E input_data default_value max_retries_arg)) = []"
proof -
  define retries where "retries = (case max_retries_arg of Some r \<Rightarrow> r | None \<Rightarrow> chain_max_retries self)"
  define s0 where "s0 = \<lparr>ultimo_error = None, ultima_respuesta = None, eventos = []\<rparr>"
  obtain r s where b: "bucle self E input_data default_value retries [0..<nat (retries + 1)] s0 = (r, s)"
    by (cases "bucle self E input_data default_value retries [0..<nat (retries + 1)] s0")
  have "filter es_espera (eventos s) = []"
    using esperas_bucle [of self E input_data default_value retries "[0..<nat (retries + 1)]" s0] b
    by (simp add: s0_def)
  then show ?thesis
    using b unfolding invoke_def retries_def [symmetric] s0_def [symmetric]
    by (auto simp add: Let_def split: option.splits sum.splits)
qed

text \<open>
  C3. The code does not do what the claim says, and what its own documentation
  promises: the class is documented as retrying "con exponential backoff" and keeps a
  \<open>retry_delay\<close> ("delay inicial entre reintentos"), but \<open>invoke\<close> never waits. With a
  backend that raises a transient error on every call and one retry, the run is: the
  first call, the warning and the line announcing the retry, the second call, the
  warning. The second call follows the first with no \<open>Sleep\<close> between them.
\<close>

theorem invoke_reintenta_sin_esperar:
  "snd (invoke (cadena_label (\<lambda>k p. Inl (BackendError (lit ''timeout'')))) entorno_label
          [(lit ''kw'', lit ''beach, sunset'')] None (Some 1)) =
     [Llm_invoke (lit ''Label: beach, sunset''), Logged Warning, Logged Info,
      Llm_invoke (lit ''Label: beach, sunset''), Logged Warning] \<and>
   \<not> espera_entre_llamadas False
       (snd (invoke (cadena_label (\<lambda>k p. Inl (BackendError (lit ''timeout'')))) entorno_label
               [(lit ''kw'', lit ''beach, sunset'')] None (Some 1)))"
  by (simp add: invoke_def cuerpo_def llamadas_def escenario_defs rango_2)


subsection \<open>A template that cannot be rendered\<close>

lemma bucle_formato_falla:
  assumes "prompt self input_data = Inl e" and "\<not> is_openai_quota_error E e"
  shows "bucle self E input_data d retries xs s =
           (None, s\<lparr>ultimo_error := (if xs = [] then ultimo_error s else Some e),
                    eventos := eventos s @ concat (map (lineas_fallo retries) xs)\<rparr>)"
proof (induction xs arbitrary: s)
  case Nil
  then show ?case by simp
next
  case (Cons intento resto)
  show ?case
    using assms Cons.IH
    by (simp add: cuerpo_formato_falla lineas_fallo_def)
qed

lemma llamadas_lineas: "llamadas (concat (map (lineas_fallo retries) xs)) = 0"
  by (induction xs) (simp_all add: llamadas_def lineas_fallo_def)


text \<open>
  C4, amended. When rendering the prompt raises (a placeholder has no value) and the
  error is not a quota error, no call of the backend is made, so no prompt with a
  literal placeholder is ever sent; the failure is handled like any failed attempt:
  each of the \<open>retries + 1\<close> iterations of the loop fails at rendering and logs its
  warning, and then \<open>invoke\<close> returns the default when it validates and raises
  \<open>LLMRetryExhaustedError\<close> with the rendering error as last error otherwise.
\<close>



theorem formato_falla_reintenta:
  assumes "prompt self input_data = Inl e"
    and "\<not> is_openai_quota_error E e"
    and "retries = (case max_retries_arg of Some r \<Rightarrow> r | None \<Rightarrow> chain_max_retries self)"
    and "0 \<le> retries"
  shows "invoke self E input_data default_value max_retries_arg =
           ((case default_value of
               None \<Rightarrow> Inl (LLMRetryExhaustedError (retries + 1) (Some e) None)
             | Some d \<Rightarrow>
                 (case pydantic_model self d of
                    Inr m \<Rightarrow> Inr m
                  | Inl x \<Rightarrow> Inl (LLMRetryExhaustedError (retries + 1) (Some e) None))),
            concat (map (lineas_fallo retries) [0..<nat (retries + 1)]) @
              (case default_value of None \<Rightarrow> [] | Some d \<Rightarrow> [Logged Warning])) \<and>
         llamadas (snd (invoke self E input_data default_value max_retries_arg)) = 0"
proof -
  have ne: "[0..<nat (retries + 1)] \<noteq> []"
    using assms(4) by simp
  have inv: "invoke self E input_data default_value max_retries_arg =
           ((case default_value of
               None \<Rightarrow> Inl (LLMRetryExhaustedError (retries + 1) (Some e) None)
             | Some d \<Rightarrow>
                 (case pydantic_model self d of
                    Inr m \<Rightarrow> Inr m
                  | Inl x \<Rightarrow> Inl (LLMRetryExhaustedError (retries + 1) (Some e) None))),
            concat (map (lineas_fallo retries) [0..<nat (retries + 1)]) @
              (case default_value of None \<Rightarrow> [] | Some d \<Rightarrow> [Logged Warning]))"
    unfolding invoke_def assms(3) [symmetric]
    using ne
    by (simp add: bucle_formato_falla [OF assms(1,2)] agotado_def split: option.splits sum.splits)
  have "llamadas (concat (map (lineas_fallo retries) [0..<nat (retries + 1)]) @
              (case default_value of None \<Rightarrow> [] | Some d \<Rightarrow> [Logged Warning])) = 0"
    by (simp add: llamadas_append llamadas_lineas llamadas_cons llamadas_nil split: option.splits)
  then show ?thesis
    unfolding inv by simp
qed


theorem formato_falla_reintenta_witness:
  "invoke (cadena_label (\<lambda>k p. Inr (lit ''ok''))) entorno_label [] None (Some 1) =
     (Inl (LLMRetryExhaustedError 2 (Some (KeyError (lit ''kw''))) None),
      [Logged Warning, Logged Info, Logged Warning]) \<and>
   llamadas (snd (invoke (cadena_label (\<lambda>k p. Inr (lit ''ok''))) entorno_label [] None (Some 1))) = 0"
proof -
  let ?c = "cadena_label (\<lambda>k p. Inr (lit ''ok''))"
  have h1: "prompt ?c [] = Inl (KeyError (lit ''kw''))"
    by (simp add: cadena_label_def formato_label_def)
  have h2: "\<not> is_openai_quota_error entorno_label (KeyError (lit ''kw''))"
    by (simp add: entorno_label_def)
  have h3: "1 = (case Some 1 of Some r \<Rightarrow> r | None \<Rightarrow> chain_max_retries ?c)"
    by simp
  have h4: "(0::int) \<le> 1"
    by simp
  have ev: "concat (map (lineas_fallo 1) [0..<2]) =
              [Logged Warning, Logged Info, Logged Warning]"
    by (simp add: lineas_fallo_def rango_2)
  show ?thesis
    using formato_falla_reintenta [OF h1 h2 h3 h4, of None]
    by (simp add: ev llamadas_def)
qed

text \<open>
  C4, as the spec has it, fails: the template \<open>Label: {kw}\<close> rendered with no value for
  \<open>kw\<close> does not make the operation fail at once. The loop runs its four iterations,
  each failing at rendering, and with a default at hand \<open>invoke\<close> returns it: no error
  reaches the caller.
\<close>

theorem placeholder_sin_valor_no_falla:
  "invoke (cadena_label (\<lambda>k p. Inr (lit ''ok''))) entorno_label []
      (Some [(lit ''label'', PStr (lit ''sin etiqueta''))]) None =
   (Inr \<lparr>label = lit ''sin etiqueta''\<rparr>,
    [Logged Warning, Logged Info, Logged Warning, Logged Info, Logged Warning, Logged Info,
     Logged Warning, Logged Warning])"
  by (simp add: invoke_def cuerpo_def escenario_defs rango_4)


subsection \<open>Loops in which every attempt fails\<close>

lemma bucle_fallan:
  assumes "\<And>s. intento_falla self E input_data d s"
  shows "fst (bucle self E input_data d retries xs s) = None"
proof (induction xs arbitrary: s)
  case Nil
  then show ?case by simp
next
  case (Cons intento resto)
  obtain r s' where c: "cuerpo self E input_data d s = (r, s')"
    by (cases "cuerpo self E input_data d s")
  show ?case
  proof (cases r)
    case (Inl e)
    have "\<not> is_openai_quota_error E e"
      using assms [of s] c Inl by (simp add: intento_falla_def)
    then show ?thesis
      using c Inl Cons.IH by simp
  next
    case (Inr m)
    then show ?thesis
      using assms [of s] c by (simp add: intento_falla_def)
  qed
qed




lemma extraer_garbage: "extraer_json_de_respuesta (lit ''garbage'') = None"
  by (simp add: lit_def extraer_json_de_respuesta_def fenced_candidate_def find_chr_def
      matches_ci_def strip_def is_space_def)

lemma strip_garbage: "strip (lit ''garbage'') = (lit ''garbage'')"
  by (simp add: lit_def strip_def is_space_def)

lemma parsear_json_garbage: "parsear_json_seguro E (lit ''garbage'') = Inr PNone"
  by (simp add: parsear_json_seguro_def extraer_garbage)

lemma parsear_garbage:
  "parsear_pydantic_seguro E (lit ''garbage'') modelo d = usar_default modelo d"
  by (simp add: parsear_pydantic_seguro_def parsear_json_garbage)




subsection \<open>The default and the retry loop\<close>



















subsection \<open>Blank responses\<close>

lemma bucle_vacias:
  assumes "prompt self input_data = Inr p"
    and "\<And>k. llm self k p = Inr (t k)"
    and "\<And>k. t k = [] \<or> strip (t k) = []"
    and "\<not> is_openai_quota_error E (ValueError msg_respuesta_vacia)"
  shows "bucle self E input_data d retries xs s =
           (None,
            s\<lparr>ultimo_error := (if xs = [] then ultimo_error s else Some (ValueError msg_respuesta_vacia)),
              ultima_respuesta := (if xs = [] then ultima_respuesta s
                                   else Some (t (llamadas (eventos s) + length xs - 1))),
              eventos := eventos s @ concat (map (\<lambda>k. Llm_invoke p # lineas_fallo retries k) xs)\<rparr>)"
proof (induction xs arbitrary: s)
  case Nil
  then show ?case by simp
next
  case (Cons intento resto)
  have c: "cuerpo self E input_data d s =
             (Inl (ValueError msg_respuesta_vacia),
              s\<lparr>eventos := eventos s @ [Llm_invoke p],
                 ultima_respuesta := Some (t (llamadas (eventos s)))\<rparr>)"
    using cuerpo_vacia [of self input_data p s "t (llamadas (eventos s))" E d]
      assms(1) assms(2) [of "llamadas (eventos s)"] assms(3) [of "llamadas (eventos s)"]
    by simp
  show ?case
    using c assms(4) Cons.IH
    by (simp add: lineas_fallo_def llamadas_append llamadas_cons llamadas_nil)
qed

lemma bucle_backend_falla:
  assumes "prompt self input_data = Inr p"
    and "\<And>k. llm self k p = Inl err"
    and "\<not> is_openai_quota_error E err"
  shows "bucle self E input_data d retries xs s =
           (None,
            s\<lparr>ultimo_error := (if xs = [] then ultimo_error s else Some err),
              eventos := eventos s @ concat (map (\<lambda>k. Llm_invoke p # lineas_fallo retries k) xs)\<rparr>)"
proof (induction xs arbitrary: s)
  case Nil
  then show ?case by simp
next
  case (Cons intento resto)
  have c: "cuerpo self E input_data d s = (Inl err, s\<lparr>eventos := eventos s @ [Llm_invoke p]\<rparr>)"
    using cuerpo_backend_falla [of self input_data p s err E d] assms(1) assms(2)
    by simp
  show ?case
    using c assms(3) Cons.IH
    by (simp add: lineas_fallo_def)
qed

lemma eventos_tres_intentos:
  "concat (map (\<lambda>k. Llm_invoke p # lineas_fallo 2 k) [0..<3]) =
     [Llm_invoke p, Logged Warning, Logged Info, Llm_invoke p, Logged Warning, Logged Info,
      Llm_invoke p, Logged Warning]"
  by (simp add: rango_3 lineas_fallo_def)


text \<open>
  C6. When every response of the backend is empty or whitespace only, no attempt
  reaches a parsing stage; each is handled as a backend call that raised a transient
  error would be (the run has the same events). With \<open>max_retries = 2\<close> and no default,
  \<open>invoke\<close> raises \<open>LLMRetryExhaustedError\<close> after exactly 3 calls, and the error carries
  the last underlying error, the \<open>ValueError\<close> of the blank response.
\<close>

theorem respuesta_vacia_agotado:
  assumes "prompt self input_data = Inr p"
    and "\<And>k. llm self k p = Inr (t k)"
    and "\<And>k. t k = [] \<or> strip (t k) = []"
    and "\<not> is_openai_quota_error E (ValueError msg_respuesta_vacia)"
    and "\<not> is_openai_quota_error E err"
  shows "invoke self E input_data None (Some 2) =
           (Inl (LLMRetryExhaustedError 3 (Some (ValueError msg_respuesta_vacia))
                   (if t 2 = [] then None else Some (take 300 (t 2)))),
            [Llm_invoke p, Logged Warning, Logged Info, Llm_invoke p, Logged Warning, Logged Info,
             Llm_invoke p, Logged Warning]) \<and>
         llamadas (snd (invoke self E input_data None (Some 2))) = 3 \<and>
         snd (invoke self E input_data None (Some 2)) =
           snd (invoke (self\<lparr>llm := \<lambda>k q. Inl err\<rparr>) E input_data None (Some 2))"
proof -
  have a: "invoke self E input_data None (Some 2) =
           (Inl (LLMRetryExhaustedError 3 (Some (ValueError msg_respuesta_vacia))
                   (if t 2 = [] then None else Some (take 300 (t 2)))),
            [Llm_invoke p, Logged Warning, Logged Info, Llm_invoke p, Logged Warning, Logged Info,
             Llm_invoke p, Logged Warning])"
    unfolding invoke_def
    by (simp add: bucle_vacias [OF assms(1-4)] agotado_def eventos_tres_intentos llamadas_nil
        numeral_2_eq_2)
  have b: "snd (invoke (self\<lparr>llm := \<lambda>k q. Inl err\<rparr>) E input_data None (Some 2)) =
            [Llm_invoke p, Logged Warning, Logged Info, Llm_invoke p, Logged Warning, Logged Info,
             Llm_invoke p, Logged Warning]"
    unfolding invoke_def
    using bucle_backend_falla [of "self\<lparr>llm := \<lambda>k q. Inl err\<rparr>" input_data p err E None 2 "[0..<3]"
        "\<lparr>ultimo_error = None, ultima_respuesta = None, eventos = []\<rparr>"] assms(1) assms(5)
    by (simp add: eventos_tres_intentos)
  show ?thesis
    unfolding a b by (simp add: llamadas_def)
qed

theorem respuesta_vacia_agotado_witness:
  "invoke (cadena_label (\<lambda>k p. Inr [])) entorno_label [(lit ''kw'', lit ''beach, sunset'')] None (Some 2) =
     (Inl (LLMRetryExhaustedError 3 (Some (ValueError msg_respuesta_vacia)) None),
      [Llm_invoke (lit ''Label: beach, sunset''), Logged Warning, Logged Info,
       Llm_invoke (lit ''Label: beach, sunset''), Logged Warning, Logged Info,
       Llm_invoke (lit ''Label: beach, sunset''), Logged Warning])"
proof -
  let ?c = "cadena_label (\<lambda>k p. Inr [])"
  let ?i = "[(lit ''kw'', lit ''beach, sunset'')]"
  have p: "prompt ?c ?i = Inr (lit ''Label: beach, sunset'')"
    by (simp add: cadena_label_def formato_label_def)
  have l: "llm ?c k (lit ''Label: beach, sunset'') = Inr []" for k
    by (simp add: cadena_label_def)
  have e: "[] = [] \<or> strip [] = []" for k :: nat
    by simp
  have q1: "\<not> is_openai_quota_error entorno_label (ValueError msg_respuesta_vacia)"
    by (simp add: entorno_label_def)
  have q2: "\<not> is_openai_quota_error entorno_label (BackendError (lit ''timeout''))"
    by (simp add: entorno_label_def)
  show ?thesis
    using respuesta_vacia_agotado [of ?c ?i "(lit ''Label: beach, sunset'')" "\<lambda>k. []" entorno_label
        "BackendError (lit ''timeout'')", OF p l e q1 q2]
    by simp
qed

subsection \<open>An invalid default\<close>

text \<open>
  C10. When every attempt fails and the supplied default does not construct the model
  (whatever the model class raises), \<open>invoke\<close> drops the default and raises
  \<open>LLMRetryExhaustedError\<close> for \<open>retries + 1\<close> attempts: neither the validation error nor a
  value reaches the caller.
\<close>

theorem default_invalido_agotado:
  assumes "\<And>s. intento_falla self E input_data (Some d) s"
    and "isl (pydantic_model self d)"
    and "retries = (case max_retries_arg of Some r \<Rightarrow> r | None \<Rightarrow> chain_max_retries self)"
  shows "\<exists>ultimo respuesta.
           fst (invoke self E input_data (Some d) max_retries_arg) =
             Inl (LLMRetryExhaustedError (retries + 1) ultimo respuesta)"
proof -
  let ?s0 = "\<lparr>ultimo_error = None, ultima_respuesta = None, eventos = []\<rparr>"
  obtain r s where b: "bucle self E input_data (Some d) retries [0..<nat (retries + 1)] ?s0 = (r, s)"
    by (cases "bucle self E input_data (Some d) retries [0..<nat (retries + 1)] ?s0")
  have "r = None"
    using bucle_fallan [of self E input_data "Some d" retries "[0..<nat (retries + 1)]" ?s0] assms(1) b
    by simp
  moreover obtain x where "pydantic_model self d = Inl x"
    using assms(2) by (cases "pydantic_model self d") simp_all
  ultimately have "fst (invoke self E input_data (Some d) max_retries_arg) = Inl (agotado retries s)"
    using b unfolding invoke_def assms(3) [symmetric] by simp
  then show ?thesis
    by (simp add: agotado_def)
qed
theorem default_invalido_agotado_witness:
  "\<exists>ultimo respuesta.
     fst (invoke (cadena_label (\<lambda>k p. Inr (lit ''garbage''))) entorno_label [(lit ''kw'', lit ''beach, sunset'')]
            (Some [(lit ''etiqueta'', PStr (lit ''x''))]) None) =
       Inl (LLMRetryExhaustedError 4 ultimo respuesta)"
proof -
  let ?c = "cadena_label (\<lambda>k p. Inr (lit ''garbage''))"
  let ?i = "[(lit ''kw'', lit ''beach, sunset'')]"
  let ?d = "[(lit ''etiqueta'', PStr (lit ''x''))]"
  have f: "intento_falla ?c entorno_label ?i (Some ?d) s" for s
    by (simp add: intento_falla_def cuerpo_def escenario_defs strip_garbage parsear_garbage
        usar_default_def)
  have v: "isl (pydantic_model ?c ?d)"
    by (simp add: cadena_label_def modelo_label_def)
  have r: "3 = (case None of Some r \<Rightarrow> r | None \<Rightarrow> chain_max_retries ?c)"
    by (simp add: cadena_label_def)
  show ?thesis
    using default_invalido_agotado [of ?c entorno_label ?i ?d 3 None, OF f v r]
    by simp
qed



subsection \<open>Repairs\<close>

lemmas patrones_defs =
  comillas_simples_def coma_final_def clave_sin_comillas_def palabra_def salto_en_string_def
  is_space_def is_word_def

lemma re_sub_sin_coincidencia: "\<not> coincide m prev s \<Longrightarrow> re_sub m prev s = s"
  by (induction s arbitrary: prev) (auto split: option.splits)

subsection \<open>What a substitution does to the number of characters of a kind\<close>

lemma re_sub_en_coincidencia:
  assumes "m prev (pre @ suf) = Some (repl, length pre)" and "pre \<noteq> []"
  shows "\<exists>p. re_sub m prev (pre @ suf) = repl @ re_sub m p suf"
proof -
  obtain c pre' where p: "pre = c # pre'"
    using assms(2) by (cases pre) auto
  show ?thesis
    using assms(1) unfolding p by auto
qed

lemma re_sub_le:
  assumes "\<And>prev s repl n. m prev s = Some (repl, n) \<Longrightarrow>
             \<exists>pre suf. s = pre @ suf \<and> n = length pre \<and> pre \<noteq> [] \<and>
               length (filter P repl) \<le> length (filter P pre)"
  shows "length (filter P (re_sub m prev s)) \<le> length (filter P s)"
proof (induction "length s" arbitrary: s prev rule: less_induct)
  case less
  show ?case
  proof (cases s)
    case Nil
    then show ?thesis by simp
  next
    case (Cons c cs)
    show ?thesis
    proof (cases "m prev s")
      case None
      have "length (filter P (re_sub m (Some c) cs)) \<le> length (filter P cs)"
        by (rule less) (simp add: Cons)
      then show ?thesis
        using None Cons by simp
    next
      case (Some a)
      obtain repl n where a: "a = (repl, n)"
        by (cases a)
      obtain pre suf where s: "s = pre @ suf" and n: "n = length pre" and ne: "pre \<noteq> []"
        and w: "length (filter P repl) \<le> length (filter P pre)"
        using assms [of prev s repl n] Some a by auto
      obtain p where r: "re_sub m prev (pre @ suf) = repl @ re_sub m p suf"
        using re_sub_en_coincidencia [of m prev pre suf repl] Some a s n ne by auto
      have "length (filter P (re_sub m p suf)) \<le> length (filter P suf)"
        by (rule less) (use s ne in simp)
      then show ?thesis
        using r w s by simp
    qed
  qed
qed

lemma re_sub_ge:
  assumes "\<And>prev s repl n. m prev s = Some (repl, n) \<Longrightarrow>
             \<exists>pre suf. s = pre @ suf \<and> n = length pre \<and> pre \<noteq> [] \<and>
               length (filter P pre) \<le> length (filter P repl)"
  shows "length (filter P s) \<le> length (filter P (re_sub m prev s))"
proof (induction "length s" arbitrary: s prev rule: less_induct)
  case less
  show ?case
  proof (cases s)
    case Nil
    then show ?thesis by simp
  next
    case (Cons c cs)
    show ?thesis
    proof (cases "m prev s")
      case None
      have "length (filter P cs) \<le> length (filter P (re_sub m (Some c) cs))"
        by (rule less) (simp add: Cons)
      then show ?thesis
        using None Cons by simp
    next
      case (Some a)
      obtain repl n where a: "a = (repl, n)"
        by (cases a)
      obtain pre suf where s: "s = pre @ suf" and n: "n = length pre" and ne: "pre \<noteq> []"
        and w: "length (filter P pre) \<le> length (filter P repl)"
        using assms [of prev s repl n] Some a by auto
      obtain p where r: "re_sub m prev (pre @ suf) = repl @ re_sub m p suf"
        using re_sub_en_coincidencia [of m prev pre suf repl] Some a s n ne by auto
      have "length (filter P suf) \<le> length (filter P (re_sub m p suf))"
        by (rule less) (use s ne in simp)
      then show ?thesis
        using r w s by simp
    qed
  qed
qed

lemma re_sub_lt:
  assumes "\<And>prev s repl n. m prev s = Some (repl, n) \<Longrightarrow>
             \<exists>pre suf. s = pre @ suf \<and> n = length pre \<and> pre \<noteq> [] \<and>
               length (filter P repl) < length (filter P pre)"
    and "coincide m prev s"
  shows "length (filter P (re_sub m prev s)) < length (filter P s)"
  using assms(2)
proof (induction s arbitrary: prev)
  case Nil
  then show ?case by simp
next
  case (Cons c cs)
  show ?case
  proof (cases "m prev (c # cs)")
    case None
    then have "coincide m (Some c) cs"
      using Cons.prems by simp
    then have "length (filter P (re_sub m (Some c) cs)) < length (filter P cs)"
      by (rule Cons.IH)
    then show ?thesis
      using None by simp
  next
    case (Some a)
    obtain repl n where a: "a = (repl, n)"
      by (cases a)
    obtain pre suf where s: "c # cs = pre @ suf" and n: "n = length pre" and ne: "pre \<noteq> []"
      and w: "length (filter P repl) < length (filter P pre)"
      using assms(1) [of prev "c # cs" repl n] Some a by auto
    obtain p where r: "re_sub m prev (pre @ suf) = repl @ re_sub m p suf"
      using re_sub_en_coincidencia [of m prev pre suf repl] Some a s n ne by auto
    have le: "\<exists>pre suf. s = pre @ suf \<and> n = length pre \<and> pre \<noteq> [] \<and>
               length (filter P repl) \<le> length (filter P pre)"
      if "m prev s = Some (repl, n)" for prev s repl n
    proof -
      from assms(1) [OF that] obtain pre suf where "s = pre @ suf" "n = length pre" "pre \<noteq> []"
        "length (filter P repl) < length (filter P pre)"
        by blast
      then show ?thesis
        by (intro exI [of _ pre] exI [of _ suf]) simp
    qed
    have "length (filter P (re_sub m p suf)) \<le> length (filter P suf)"
      using le by (rule re_sub_le)
    then have "length (filter P (re_sub m prev (pre @ suf))) < length (filter P (pre @ suf))"
      using r w by simp
    then show ?thesis
      using s by simp
  qed
qed

lemma re_sub_gt:
  assumes "\<And>prev s repl n. m prev s = Some (repl, n) \<Longrightarrow>
             \<exists>pre suf. s = pre @ suf \<and> n = length pre \<and> pre \<noteq> [] \<and>
               length (filter P pre) < length (filter P repl)"
    and "coincide m prev s"
  shows "length (filter P s) < length (filter P (re_sub m prev s))"
  using assms(2)
proof (induction s arbitrary: prev)
  case Nil
  then show ?case by simp
next
  case (Cons c cs)
  show ?case
  proof (cases "m prev (c # cs)")
    case None
    then have "coincide m (Some c) cs"
      using Cons.prems by simp
    then have "length (filter P cs) < length (filter P (re_sub m (Some c) cs))"
      by (rule Cons.IH)
    then show ?thesis
      using None by simp
  next
    case (Some a)
    obtain repl n where a: "a = (repl, n)"
      by (cases a)
    obtain pre suf where s: "c # cs = pre @ suf" and n: "n = length pre" and ne: "pre \<noteq> []"
      and w: "length (filter P pre) < length (filter P repl)"
      using assms(1) [of prev "c # cs" repl n] Some a by auto
    obtain p where r: "re_sub m prev (pre @ suf) = repl @ re_sub m p suf"
      using re_sub_en_coincidencia [of m prev pre suf repl] Some a s n ne by auto
    have ge: "\<exists>pre suf. s = pre @ suf \<and> n = length pre \<and> pre \<noteq> [] \<and>
               length (filter P pre) \<le> length (filter P repl)"
      if "m prev s = Some (repl, n)" for prev s repl n
    proof -
      from assms(1) [OF that] obtain pre suf where "s = pre @ suf" "n = length pre" "pre \<noteq> []"
        "length (filter P pre) < length (filter P repl)"
        by blast
      then show ?thesis
        by (intro exI [of _ pre] exI [of _ suf]) simp
    qed
    have "length (filter P suf) \<le> length (filter P (re_sub m p suf))"
      using ge by (rule re_sub_ge)
    then have "length (filter P (pre @ suf)) < length (filter P (re_sub m prev (pre @ suf)))"
      using r w by simp
    then show ?thesis
      using s by simp
  qed
qed


subsection \<open>The shape of a match\<close>

lemma tras_dropWhile: "dropWhile P s = a # r \<Longrightarrow> s = takeWhile P s @ a # r \<and> \<not> P a"
  by (metis hd_dropWhile list.distinct(1) list.sel(1) takeWhile_dropWhile_id)

lemma resto_longitud: "length (pre @ suf) - length suf = length pre"
  by simp

lemma coma_final_forma:
  assumes "coma_final prev s = Some (repl, n)"
  shows "\<exists>ws b suf. s = (comma # ws @ [b]) @ suf \<and> n = length (comma # ws @ [b]) \<and>
           repl = [b] \<and> (b = rbrace \<or> b = rbracket) \<and> (\<forall>x\<in>set ws. is_space x)"
proof -
  obtain r where s: "s = comma # r"
    using assms by (cases s) (auto simp add: coma_final_def split: if_splits)
  obtain b r2 where d: "dropWhile is_space r = b # r2"
    using assms s
    by (cases "dropWhile is_space r") (auto simp add: coma_final_def simp del: dropWhile_eq_Nil_conv)
  have b: "b = rbrace \<or> b = rbracket" and repl: "repl = [b]" and n: "n = length s - length r2"
    using assms s d by (auto simp add: coma_final_def split: if_splits)
  have r: "r = takeWhile is_space r @ b # r2"
    using tras_dropWhile [OF d] by simp
  have sp: "\<forall>x\<in>set (takeWhile is_space r). is_space x"
    by (auto dest: set_takeWhileD)
  have s': "s = (comma # takeWhile is_space r @ [b]) @ r2"
    using s r by simp
  have "n = length (comma # takeWhile is_space r @ [b])"
    unfolding n by (subst s') (simp only: resto_longitud)
  then show ?thesis
    using s' b repl sp by blast
qed

lemma comillas_simples_forma:
  assumes "comillas_simples prev s = Some (repl, n)"
  shows "\<exists>ws1 c ws2 suf. s = (ws1 @ squote # c @ squote # ws2) @ suf \<and>
           n = length (ws1 @ squote # c @ squote # ws2) \<and> repl = dquote # c @ [dquote] \<and>
           (\<forall>x\<in>set ws1. is_space x) \<and> (\<forall>x\<in>set ws2. is_space x) \<and> squote \<notin> set c"
proof -
  obtain s2 where d1: "dropWhile is_space s = squote # s2"
    using assms
    by (cases "dropWhile is_space s")
       (auto simp add: comillas_simples_def simp del: dropWhile_eq_Nil_conv
          split: option.splits if_splits)
  obtain y s3 where d2: "dropWhile (\<lambda>c. c \<noteq> squote) s2 = y # s3"
    using assms d1
    by (cases "dropWhile (\<lambda>c. c \<noteq> squote) s2")
       (auto simp add: comillas_simples_def simp del: dropWhile_eq_Nil_conv
          split: option.splits if_splits)
  obtain a s4 where d3: "dropWhile is_space s3 = a # s4"
    using assms d1 d2
    by (cases "dropWhile is_space s3")
       (auto simp add: comillas_simples_def simp del: dropWhile_eq_Nil_conv
          split: option.splits if_splits)
  have repl: "repl = dquote # takeWhile (\<lambda>c. c \<noteq> squote) s2 @ [dquote]"
    and n: "n = length s - length (a # s4)"
    using assms d1 d2 d3 by (auto simp add: comillas_simples_def split: option.splits if_splits)
  have e1: "s = takeWhile is_space s @ squote # s2"
    using tras_dropWhile [OF d1] by simp
  have y: "y = squote"
    using tras_dropWhile [OF d2] by simp
  have e2: "s2 = takeWhile (\<lambda>c. c \<noteq> squote) s2 @ squote # s3"
    using tras_dropWhile [OF d2, THEN conjunct1] unfolding y .
  have e3: "s3 = takeWhile is_space s3 @ a # s4"
    using tras_dropWhile [OF d3] by simp
  let ?ws1 = "takeWhile is_space s" and ?c = "takeWhile (\<lambda>c. c \<noteq> squote) s2"
    and ?ws2 = "takeWhile is_space s3"
  have s': "s = (?ws1 @ squote # ?c @ squote # ?ws2) @ (a # s4)"
    using e1 e2 e3 by (metis append.assoc append_Cons)
  have n': "n = length (?ws1 @ squote # ?c @ squote # ?ws2)"
    unfolding n by (subst s') (simp only: resto_longitud)
  have sp1: "\<forall>x\<in>set ?ws1. is_space x" and sp2: "\<forall>x\<in>set ?ws2. is_space x"
    and nq: "squote \<notin> set ?c"
    by (auto dest: set_takeWhileD)
  show ?thesis
    using s' n' repl sp1 sp2 nq by blast
qed

lemma clave_sin_comillas_forma:
  assumes "clave_sin_comillas alnum prev s = Some (repl, n)"
  shows "\<exists>d ws1 w ws2 suf. s = (d # ws1 @ w @ ws2 @ [colon]) @ suf \<and>
           n = length (d # ws1 @ w @ ws2 @ [colon]) \<and> repl = d # dquote # w @ [dquote, colon] \<and>
           (d = lbrace \<or> d = comma) \<and> (\<forall>x\<in>set ws1. is_space x) \<and>
           (\<forall>x\<in>set w. is_word alnum x) \<and> (\<forall>x\<in>set ws2. is_space x)"
proof -
  obtain d r where s: "s = d # r" and d: "d = lbrace \<or> d = comma"
    using assms by (cases s) (auto simp add: clave_sin_comillas_def split: if_splits)
  let ?r1 = "dropWhile is_space r"
  let ?w = "takeWhile (is_word alnum) ?r1"
  obtain a r3 where d3: "dropWhile is_space (dropWhile (is_word alnum) ?r1) = a # r3"
    using assms s d
    by (cases "dropWhile is_space (dropWhile (is_word alnum) ?r1)")
       (auto simp add: clave_sin_comillas_def Let_def simp del: dropWhile_eq_Nil_conv
          split: if_splits)
  have a: "a = colon" and repl: "repl = d # dquote # ?w @ [dquote, colon]"
    and n: "n = length s - length r3"
    using assms s d d3 by (auto simp add: clave_sin_comillas_def Let_def split: if_splits)
  let ?ws1 = "takeWhile is_space r"
  let ?ws2 = "takeWhile is_space (dropWhile (is_word alnum) ?r1)"
  have e1: "r = ?ws1 @ ?r1"
    by simp
  have e2: "?r1 = ?w @ dropWhile (is_word alnum) ?r1"
    by simp
  have e3: "dropWhile (is_word alnum) ?r1 = ?ws2 @ colon # r3"
    using tras_dropWhile [OF d3] a by simp
  have "r = ?ws1 @ ?w @ ?ws2 @ colon # r3"
    using e1 e2 e3 by metis
  then have s': "s = (d # ?ws1 @ ?w @ ?ws2 @ [colon]) @ r3"
    using s by simp
  have n': "n = length (d # ?ws1 @ ?w @ ?ws2 @ [colon])"
    unfolding n by (subst s') (simp only: resto_longitud)
  have sp1: "\<forall>x\<in>set ?ws1. is_space x" and sp2: "\<forall>x\<in>set ?ws2. is_space x"
    and wd: "\<forall>x\<in>set ?w. is_word alnum x"
    by (auto dest: set_takeWhileD)
  show ?thesis
    using s' n' repl d sp1 sp2 wd by blast
qed

lemma palabra_forma:
  assumes "palabra alnum w repl prev s = Some (r, n)"
  shows "r = repl \<and> n = length w \<and> (\<exists>suf. s = w @ suf)"
proof -
  have t: "take (length w) s = w" and r: "r = repl" and n: "n = length w"
    using assms by (auto simp add: palabra_def split: if_splits)
  have "s = w @ drop (length w) s"
    using t by (metis append_take_drop_id)
  then show ?thesis
    using r n by blast
qed

lemma salto_en_string_forma:
  assumes "salto_en_string prev s = Some (repl, n)"
  shows "n = 1 \<and> repl = backslash # lit ''n'' \<and> (\<exists>suf. s = [newline] @ suf)"
  using assms by (cases s) (auto simp add: salto_en_string_def split: if_splits)


subsection \<open>The passes of the repairer, one kind of character at a time\<close>

lemma sin_P: "(\<forall>x\<in>set xs. \<not> P x) \<Longrightarrow> filter P xs = []"
  by (simp add: filter_empty_conv)

lemma comillas_le:
  assumes "\<not> P dquote"
  shows "length (filter P (re_sub comillas_simples prev s)) \<le> length (filter P s)"
proof (rule re_sub_le)
  fix prev s repl n
  assume "comillas_simples prev s = Some (repl, n)"
  from comillas_simples_forma [OF this] obtain ws1 c ws2 suf
    where f: "s = (ws1 @ squote # c @ squote # ws2) @ suf"
      "n = length (ws1 @ squote # c @ squote # ws2)" "repl = dquote # c @ [dquote]"
    by blast
  show "\<exists>pre suf. s = pre @ suf \<and> n = length pre \<and> pre \<noteq> [] \<and>
          length (filter P repl) \<le> length (filter P pre)"
    using f assms
    by (intro exI [of _ "ws1 @ squote # c @ squote # ws2"] exI [of _ suf]) simp
qed

lemma comillas_lt:
  assumes "coincide comillas_simples prev s"
  shows "length (filter (\<lambda>x. x = squote) (re_sub comillas_simples prev s)) <
         length (filter (\<lambda>x. x = squote) s)"
proof (rule re_sub_lt [OF _ assms])
  fix prev s repl n
  assume "comillas_simples prev s = Some (repl, n)"
  from comillas_simples_forma [OF this] obtain ws1 c ws2 suf
    where f: "s = (ws1 @ squote # c @ squote # ws2) @ suf"
      "n = length (ws1 @ squote # c @ squote # ws2)" "repl = dquote # c @ [dquote]"
      and q: "squote \<notin> set c"
    by blast
  have "filter (\<lambda>x. x = squote) c = []"
    using q by (auto simp add: filter_empty_conv)
  then show "\<exists>pre suf. s = pre @ suf \<and> n = length pre \<and> pre \<noteq> [] \<and>
          length (filter (\<lambda>x. x = squote) repl) < length (filter (\<lambda>x. x = squote) pre)"
    using f
    by (intro exI [of _ "ws1 @ squote # c @ squote # ws2"] exI [of _ suf]) simp
qed

lemma coma_le: "length (filter P (re_sub coma_final prev s)) \<le> length (filter P s)"
proof (rule re_sub_le)
  fix prev s repl n
  assume "coma_final prev s = Some (repl, n)"
  from coma_final_forma [OF this] obtain ws b suf
    where f: "s = (comma # ws @ [b]) @ suf" "n = length (comma # ws @ [b])" "repl = [b]"
    by blast
  show "\<exists>pre suf. s = pre @ suf \<and> n = length pre \<and> pre \<noteq> [] \<and>
          length (filter P repl) \<le> length (filter P pre)"
    using f
    by (intro exI [of _ "comma # ws @ [b]"] exI [of _ suf]) simp
qed

lemma coma_lt:
  assumes "coincide coma_final prev s"
  shows "length (filter (\<lambda>x. x = comma) (re_sub coma_final prev s)) <
         length (filter (\<lambda>x. x = comma) s)"
proof (rule re_sub_lt [OF _ assms])
  fix prev s repl n
  assume "coma_final prev s = Some (repl, n)"
  from coma_final_forma [OF this] obtain ws b suf
    where f: "s = (comma # ws @ [b]) @ suf" "n = length (comma # ws @ [b])" "repl = [b]"
      and b: "b = rbrace \<or> b = rbracket"
    by blast
  show "\<exists>pre suf. s = pre @ suf \<and> n = length pre \<and> pre \<noteq> [] \<and>
          length (filter (\<lambda>x. x = comma) repl) < length (filter (\<lambda>x. x = comma) pre)"
    using f b
    by (intro exI [of _ "comma # ws @ [b]"] exI [of _ suf]) auto
qed

lemma clave_le:
  assumes "\<not> P dquote"
  shows "length (filter P (re_sub (clave_sin_comillas alnum) prev s)) \<le> length (filter P s)"
proof (rule re_sub_le)
  fix prev s repl n
  assume "clave_sin_comillas alnum prev s = Some (repl, n)"
  from clave_sin_comillas_forma [OF this] obtain d ws1 w ws2 suf
    where f: "s = (d # ws1 @ w @ ws2 @ [colon]) @ suf" "n = length (d # ws1 @ w @ ws2 @ [colon])"
      "repl = d # dquote # w @ [dquote, colon]"
    by blast
  show "\<exists>pre suf. s = pre @ suf \<and> n = length pre \<and> pre \<noteq> [] \<and>
          length (filter P repl) \<le> length (filter P pre)"
    using f assms
    by (intro exI [of _ "d # ws1 @ w @ ws2 @ [colon]"] exI [of _ suf]) simp
qed

lemma clave_gt:
  assumes "coincide (clave_sin_comillas alnum) prev s"
  shows "length (filter (\<lambda>x. x = dquote) s) <
         length (filter (\<lambda>x. x = dquote) (re_sub (clave_sin_comillas alnum) prev s))"
proof (rule re_sub_gt [OF _ assms])
  fix prev s repl n
  assume "clave_sin_comillas alnum prev s = Some (repl, n)"
  from clave_sin_comillas_forma [OF this] obtain d ws1 w ws2 suf
    where f: "s = (d # ws1 @ w @ ws2 @ [colon]) @ suf" "n = length (d # ws1 @ w @ ws2 @ [colon])"
      "repl = d # dquote # w @ [dquote, colon]"
      and d: "d = lbrace \<or> d = comma"
      and sp1: "\<forall>x\<in>set ws1. is_space x" and wd: "\<forall>x\<in>set w. is_word alnum x"
      and sp2: "\<forall>x\<in>set ws2. is_space x"
    by blast
  have e1: "filter (\<lambda>x. x = dquote) ws1 = []"
    by (rule sin_P) (use sp1 in \<open>auto simp add: is_space_def\<close>)
  have e2: "filter (\<lambda>x. x = dquote) ws2 = []"
    by (rule sin_P) (use sp2 in \<open>auto simp add: is_space_def\<close>)
  have e3: "filter (\<lambda>x. x = dquote) w = []"
    by (rule sin_P) (use wd in \<open>auto simp add: is_word_def\<close>)
  show "\<exists>pre suf. s = pre @ suf \<and> n = length pre \<and> pre \<noteq> [] \<and>
          length (filter (\<lambda>x. x = dquote) pre) < length (filter (\<lambda>x. x = dquote) repl)"
    using f d e1 e2 e3
    by (intro exI [of _ "d # ws1 @ w @ ws2 @ [colon]"] exI [of _ suf]) auto
qed

lemma palabra_le:
  assumes "w \<noteq> []" and "length (filter P repl) \<le> length (filter P w)"
  shows "length (filter P (re_sub (palabra alnum w repl) prev s)) \<le> length (filter P s)"
proof (rule re_sub_le)
  fix prev s r n
  assume "palabra alnum w repl prev s = Some (r, n)"
  from palabra_forma [OF this] obtain suf where f: "r = repl" "n = length w" "s = w @ suf"
    by blast
  show "\<exists>pre suf. s = pre @ suf \<and> n = length pre \<and> pre \<noteq> [] \<and>
          length (filter P r) \<le> length (filter P pre)"
    using f assms by (intro exI [of _ w] exI [of _ suf]) simp
qed

lemma palabra_ge:
  assumes "w \<noteq> []" and "length (filter P w) \<le> length (filter P repl)"
  shows "length (filter P s) \<le> length (filter P (re_sub (palabra alnum w repl) prev s))"
proof (rule re_sub_ge)
  fix prev s r n
  assume "palabra alnum w repl prev s = Some (r, n)"
  from palabra_forma [OF this] obtain suf where f: "r = repl" "n = length w" "s = w @ suf"
    by blast
  show "\<exists>pre suf. s = pre @ suf \<and> n = length pre \<and> pre \<noteq> [] \<and>
          length (filter P pre) \<le> length (filter P r)"
    using f assms by (intro exI [of _ w] exI [of _ suf]) simp
qed

lemma palabra_lt:
  assumes "w \<noteq> []" and "length (filter P repl) < length (filter P w)"
    and "coincide (palabra alnum w repl) prev s"
  shows "length (filter P (re_sub (palabra alnum w repl) prev s)) < length (filter P s)"
proof (rule re_sub_lt [OF _ assms(3)])
  fix prev s r n
  assume "palabra alnum w repl prev s = Some (r, n)"
  from palabra_forma [OF this] obtain suf where f: "r = repl" "n = length w" "s = w @ suf"
    by blast
  show "\<exists>pre suf. s = pre @ suf \<and> n = length pre \<and> pre \<noteq> [] \<and>
          length (filter P r) < length (filter P pre)"
    using f assms(1,2) by (intro exI [of _ w] exI [of _ suf]) simp
qed

lemma salto_le:
  assumes "\<not> P backslash" and "\<not> P 0x6E"
  shows "length (filter P (re_sub salto_en_string prev s)) \<le> length (filter P s)"
proof (rule re_sub_le)
  fix prev s repl n
  assume "salto_en_string prev s = Some (repl, n)"
  from salto_en_string_forma [OF this] obtain suf
    where f: "n = 1" "repl = backslash # lit ''n''" "s = [newline] @ suf"
    by blast
  show "\<exists>pre suf. s = pre @ suf \<and> n = length pre \<and> pre \<noteq> [] \<and>
          length (filter P repl) \<le> length (filter P pre)"
    using f assms by (intro exI [of _ "[newline]"] exI [of _ suf]) (simp add: lit_def)
qed

lemma salto_ge:
  assumes "\<not> P newline"
  shows "length (filter P s) \<le> length (filter P (re_sub salto_en_string prev s))"
proof (rule re_sub_ge)
  fix prev s repl n
  assume "salto_en_string prev s = Some (repl, n)"
  from salto_en_string_forma [OF this] obtain suf
    where f: "n = 1" "repl = backslash # lit ''n''" "s = [newline] @ suf"
    by blast
  show "\<exists>pre suf. s = pre @ suf \<and> n = length pre \<and> pre \<noteq> [] \<and>
          length (filter P pre) \<le> length (filter P repl)"
    using f assms by (intro exI [of _ "[newline]"] exI [of _ suf]) (simp add: lit_def)
qed

lemma salto_lt:
  assumes "coincide salto_en_string prev s"
  shows "length (filter (\<lambda>x. x = newline) (re_sub salto_en_string prev s)) <
         length (filter (\<lambda>x. x = newline) s)"
proof (rule re_sub_lt [OF _ assms])
  fix prev s repl n
  assume "salto_en_string prev s = Some (repl, n)"
  from salto_en_string_forma [OF this] obtain suf
    where f: "n = 1" "repl = backslash # lit ''n''" "s = [newline] @ suf"
    by blast
  show "\<exists>pre suf. s = pre @ suf \<and> n = length pre \<and> pre \<noteq> [] \<and>
          length (filter (\<lambda>x. x = newline) repl) < length (filter (\<lambda>x. x = newline) pre)"
    using f by (intro exI [of _ "[newline]"] exI [of _ suf]) (simp add: lit_def)
qed

lemma filter_dropWhile_le: "length (filter P (dropWhile Q s)) \<le> length (filter P s)"
  by (induction s) auto

lemma dropWhile_lt:
  "dropWhile P s \<noteq> s \<Longrightarrow> length (filter P (dropWhile P s)) < length (filter P s)"
proof (cases s)
  case Nil
  assume "dropWhile P s \<noteq> s"
  then show ?thesis using Nil by simp
next
  case (Cons c cs)
  assume a: "dropWhile P s \<noteq> s"
  then have p: "P c"
    using Cons by (auto split: if_splits)
  have "length (filter P (dropWhile P cs)) \<le> length (filter P cs)"
    by (rule filter_dropWhile_le)
  then show ?thesis
    using Cons p by simp
qed

lemma strip_chars_lt:
  assumes "strip_chars chars s \<noteq> s"
  shows "length (filter (\<lambda>c. c \<in> set chars) (strip_chars chars s)) <
         length (filter (\<lambda>c. c \<in> set chars) s)"
proof -
  let ?Q = "\<lambda>c. c \<in> set chars"
  let ?d = "dropWhile ?Q s"
  have l: "length (filter ?Q (strip_chars chars s)) = length (filter ?Q (dropWhile ?Q (rev ?d)))"
    unfolding strip_chars_def by (simp add: rev_filter [symmetric])
  have r: "length (filter ?Q (rev ?d)) = length (filter ?Q ?d)"
    by (simp add: rev_filter [symmetric])
  show ?thesis
  proof (cases "?d = s")
    case True
    then have "dropWhile ?Q (rev ?d) \<noteq> rev ?d"
      using assms unfolding strip_chars_def by (metis rev_rev_ident)
    then have "length (filter ?Q (dropWhile ?Q (rev ?d))) < length (filter ?Q (rev ?d))"
      by (rule dropWhile_lt)
    then show ?thesis
      unfolding l r using True by simp
  next
    case False
    then have "length (filter ?Q ?d) < length (filter ?Q s)"
      by (rule dropWhile_lt)
    moreover have "length (filter ?Q (dropWhile ?Q (rev ?d))) \<le> length (filter ?Q (rev ?d))"
      by (rule filter_dropWhile_le)
    ultimately show ?thesis
      unfolding l r by simp
  qed
qed


subsection \<open>The texts the repairer returns unchanged\<close>

lemma intacto_sin_cambio: "intacto alnum x \<Longrightarrow> reparar_json alnum x = x"
  by (simp add: reparar_json_def intacto_def sin_reparaciones_def re_sub_sin_coincidencia)

lemma sin_cambio_intacto:
  assumes r: "reparar_json alnum x = x"
  shows "intacto alnum x"
proof (cases "x = []")
  case True
  then show ?thesis
    by (simp add: intacto_def sin_reparaciones_def strip_chars_def)
next
  case False
  define x0 where "x0 = strip_chars invisibles x"
  define x1 where "x1 = re_sub comillas_simples None x0"
  define x2 where "x2 = re_sub coma_final None x1"
  define x3 where "x3 = re_sub (clave_sin_comillas alnum) None x2"
  define x4 where "x4 = re_sub (palabra alnum (lit ''True'') (lit ''true'')) None x3"
  define x5 where "x5 = re_sub (palabra alnum (lit ''False'') (lit ''false'')) None x4"
  define x6 where "x6 = re_sub (palabra alnum (lit ''None'') (lit ''null'')) None x5"
  define x7 where "x7 = re_sub salto_en_string None x6"
  have "reparar_json alnum x = x7"
    using False
    by (simp add: reparar_json_def Let_def x0_def x1_def x2_def x3_def x4_def x5_def x6_def x7_def)
  then have fin: "x7 = x"
    using r by simp
  let ?f = "\<lambda>P s. length (filter P s)"
  let ?nuevos = "dquote # backslash # lit ''truefalsnl''"
  have w: "filter P (lit ''true'') = [] \<and> filter P (lit ''false'') = [] \<and>
           filter P (lit ''null'') = [] \<and> \<not> P dquote \<and> \<not> P backslash \<and> \<not> P 0x6E"
    if "\<forall>c\<in>set ?nuevos. \<not> P c" for P
    using that by (simp add: lit_def)
  have h6: "?f P x7 \<le> ?f P x6" if "\<forall>c\<in>set ?nuevos. \<not> P c" for P
    unfolding x7_def using w [OF that] by (intro salto_le) simp_all
  have h5: "?f P x7 \<le> ?f P x5" if "\<forall>c\<in>set ?nuevos. \<not> P c" for P
  proof -
    have "?f P x6 \<le> ?f P x5"
      unfolding x6_def using w [OF that] by (intro palabra_le) simp_all
    then show ?thesis
      using h6 [OF that] by simp
  qed
  have h4: "?f P x7 \<le> ?f P x4" if "\<forall>c\<in>set ?nuevos. \<not> P c" for P
  proof -
    have "?f P x5 \<le> ?f P x4"
      unfolding x5_def using w [OF that] by (intro palabra_le) simp_all
    then show ?thesis
      using h5 [OF that] by simp
  qed
  have h3: "?f P x7 \<le> ?f P x3" if "\<forall>c\<in>set ?nuevos. \<not> P c" for P
  proof -
    have "?f P x4 \<le> ?f P x3"
      unfolding x4_def using w [OF that] by (intro palabra_le) simp_all
    then show ?thesis
      using h4 [OF that] by simp
  qed
  have h2: "?f P x7 \<le> ?f P x2" if "\<forall>c\<in>set ?nuevos. \<not> P c" for P
  proof -
    have "?f P x3 \<le> ?f P x2"
      unfolding x3_def using w [OF that] by (intro clave_le) simp
    then show ?thesis
      using h3 [OF that] by simp
  qed
  have h1: "?f P x7 \<le> ?f P x1" if "\<forall>c\<in>set ?nuevos. \<not> P c" for P
  proof -
    have "?f P x2 \<le> ?f P x1"
      unfolding x2_def by (rule coma_le)
    then show ?thesis
      using h2 [OF that] by simp
  qed
  have h0: "?f P x7 \<le> ?f P x0" if "\<forall>c\<in>set ?nuevos. \<not> P c" for P
  proof -
    have "?f P x1 \<le> ?f P x0"
      unfolding x1_def using w [OF that] by (intro comillas_le) simp
    then show ?thesis
      using h1 [OF that] by simp
  qed
  \<comment> \<open>the strip\<close>
  have e0: "x0 = x"
  proof (rule ccontr)
    assume "x0 \<noteq> x"
    then have "?f (\<lambda>c. c \<in> set invisibles) x0 < ?f (\<lambda>c. c \<in> set invisibles) x"
      unfolding x0_def by (rule strip_chars_lt)
    moreover have "?f (\<lambda>c. c \<in> set invisibles) x7 \<le> ?f (\<lambda>c. c \<in> set invisibles) x0"
      by (rule h0) (simp add: lit_def invisibles_def)
    ultimately show False
      using fin by simp
  qed
  \<comment> \<open>single quotes\<close>
  have n1: "\<not> coincide comillas_simples None x"
  proof
    assume "coincide comillas_simples None x"
    then have "?f (\<lambda>c. c = squote) x1 < ?f (\<lambda>c. c = squote) x"
      unfolding x1_def e0 by (rule comillas_lt)
    moreover have "?f (\<lambda>c. c = squote) x7 \<le> ?f (\<lambda>c. c = squote) x1"
      by (rule h1) (simp add: lit_def)
    ultimately show False
      using fin by simp
  qed
  then have e1: "x1 = x"
    unfolding x1_def e0 by (rule re_sub_sin_coincidencia)
  \<comment> \<open>trailing commas\<close>
  have n2: "\<not> coincide coma_final None x"
  proof
    assume "coincide coma_final None x"
    then have "?f (\<lambda>c. c = comma) x2 < ?f (\<lambda>c. c = comma) x"
      unfolding x2_def e1 by (rule coma_lt)
    moreover have "?f (\<lambda>c. c = comma) x7 \<le> ?f (\<lambda>c. c = comma) x2"
      by (rule h2) (simp add: lit_def)
    ultimately show False
      using fin by simp
  qed
  then have e2: "x2 = x"
    unfolding x2_def e1 by (rule re_sub_sin_coincidencia)
  \<comment> \<open>bare keys: the pass adds double quotes, and no later pass removes one\<close>
  have n3: "\<not> coincide (clave_sin_comillas alnum) None x"
  proof
    assume "coincide (clave_sin_comillas alnum) None x"
    then have "?f (\<lambda>c. c = dquote) x < ?f (\<lambda>c. c = dquote) x3"
      unfolding x3_def e2 by (rule clave_gt)
    moreover have "?f (\<lambda>c. c = dquote) x3 \<le> ?f (\<lambda>c. c = dquote) x4"
      unfolding x4_def by (rule palabra_ge) (simp_all add: lit_def)
    moreover have "?f (\<lambda>c. c = dquote) x4 \<le> ?f (\<lambda>c. c = dquote) x5"
      unfolding x5_def by (rule palabra_ge) (simp_all add: lit_def)
    moreover have "?f (\<lambda>c. c = dquote) x5 \<le> ?f (\<lambda>c. c = dquote) x6"
      unfolding x6_def by (rule palabra_ge) (simp_all add: lit_def)
    moreover have "?f (\<lambda>c. c = dquote) x6 \<le> ?f (\<lambda>c. c = dquote) x7"
      unfolding x7_def by (rule salto_ge) simp
    ultimately show False
      using fin by simp
  qed
  then have e3: "x3 = x"
    unfolding x3_def e2 by (rule re_sub_sin_coincidencia)
  \<comment> \<open>the three Python words\<close>
  have n4: "\<not> coincide (palabra alnum (lit ''True'') (lit ''true'')) None x"
  proof
    assume "coincide (palabra alnum (lit ''True'') (lit ''true'')) None x"
    then have "?f (\<lambda>c. c = 0x54) x4 < ?f (\<lambda>c. c = 0x54) x"
      unfolding x4_def e3 by (intro palabra_lt) (simp_all add: lit_def)
    moreover have "?f (\<lambda>c. c = 0x54) x7 \<le> ?f (\<lambda>c. c = 0x54) x4"
      by (rule h4) (simp add: lit_def)
    ultimately show False
      using fin by simp
  qed
  then have e4: "x4 = x"
    unfolding x4_def e3 by (rule re_sub_sin_coincidencia)
  have n5: "\<not> coincide (palabra alnum (lit ''False'') (lit ''false'')) None x"
  proof
    assume "coincide (palabra alnum (lit ''False'') (lit ''false'')) None x"
    then have "?f (\<lambda>c. c = 0x46) x5 < ?f (\<lambda>c. c = 0x46) x"
      unfolding x5_def e4 by (intro palabra_lt) (simp_all add: lit_def)
    moreover have "?f (\<lambda>c. c = 0x46) x7 \<le> ?f (\<lambda>c. c = 0x46) x5"
      by (rule h5) (simp add: lit_def)
    ultimately show False
      using fin by simp
  qed
  then have e5: "x5 = x"
    unfolding x5_def e4 by (rule re_sub_sin_coincidencia)
  have n6: "\<not> coincide (palabra alnum (lit ''None'') (lit ''null'')) None x"
  proof
    assume "coincide (palabra alnum (lit ''None'') (lit ''null'')) None x"
    then have "?f (\<lambda>c. c = 0x4E) x6 < ?f (\<lambda>c. c = 0x4E) x"
      unfolding x6_def e5 by (intro palabra_lt) (simp_all add: lit_def)
    moreover have "?f (\<lambda>c. c = 0x4E) x7 \<le> ?f (\<lambda>c. c = 0x4E) x6"
      by (rule h6) (simp add: lit_def)
    ultimately show False
      using fin by simp
  qed
  then have e6: "x6 = x"
    unfolding x6_def e5 by (rule re_sub_sin_coincidencia)
  \<comment> \<open>newlines\<close>
  have n7: "\<not> coincide salto_en_string None x"
  proof
    assume "coincide salto_en_string None x"
    then have "?f (\<lambda>c. c = newline) x7 < ?f (\<lambda>c. c = newline) x"
      unfolding x7_def e6 by (rule salto_lt)
    then show False
      using fin by simp
  qed
  show ?thesis
    using e0 n1 n2 n3 n4 n5 n6 n7
    by (simp add: intacto_def sin_reparaciones_def x0_def)
qed


text \<open>
  C5, as the spec has it, fails on both counts. Repairing \<open>,,}\<close> gives \<open>,}\<close> and repairing
  that gives \<open>}\<close>: the trailing-comma pass removes one comma per application. Repairing
  \<open>['a,'b',c']\<close> gives \<open>['a,"b",c']\<close>, whose two remaining single quotes now enclose a
  text that the single-quote pass accepts: repairing again gives \<open>["a,"b",c"]\<close>. And
  the valid JSON text \<open>["a,]"]\<close> is changed to \<open>["a]"]\<close>: the patterns do not know
  where a string literal begins and ends.
\<close>

theorem reparar_no_idempotente:
  "reparar_json (\<lambda>c. False) (reparar_json (\<lambda>c. False) (lit '',,}'')) \<noteq>
     reparar_json (\<lambda>c. False) (lit '',,}'') \<and>
   reparar_json (\<lambda>c. False) (reparar_json (\<lambda>c. False) (lit ''['a,'b',c']'')) \<noteq>
     reparar_json (\<lambda>c. False) (lit ''['a,'b',c']'') \<and>
   reparar_json (\<lambda>c. False) (lit ''[\"a,]\"]'') \<noteq> lit ''[\"a,]\"]''"
  by (simp add: lit_def reparar_json_def strip_chars_def invisibles_def patrones_defs)

text \<open>
  C5, amended. The repair returns a text \<open>x\<close> unchanged exactly when it finds nothing to
  do in it: \<open>x\<close> neither begins nor ends with one of the four invisible characters and
  none of the seven patterns matches anywhere in \<open>x\<close>. Every strip and every
  substitution it makes changes the result for good (no later pass undoes it). So
  repairing twice gives the same as repairing once exactly when the repaired text is
  of this kind (a substitution can make room for another one, as the examples above
  show, so this is a condition on the repaired text), and a valid JSON text is returned
  unchanged exactly when it is of this kind (as \<open>{"a": 1, "b": [true, null]}\<close> is, and
  \<open>["a,]"]\<close> is not).
\<close>

theorem reparar_punto_fijo:
  "(reparar_json alnum x = x) = intacto alnum x \<and>
   (reparar_json alnum (reparar_json alnum x) = reparar_json alnum x) =
     intacto alnum (reparar_json alnum x)"
  using intacto_sin_cambio sin_cambio_intacto by blast

theorem reparar_punto_fijo_witness:
  "reparar_json (\<lambda>c. False) (lit ''{\"a\": 1, \"b\": [true, null]}'') =
     lit ''{\"a\": 1, \"b\": [true, null]}'' \<and>
   reparar_json (\<lambda>c. False) (reparar_json (\<lambda>c. False) (lit ''{\"a\": 1, \"b\": [true, null]}'')) =
     reparar_json (\<lambda>c. False) (lit ''{\"a\": 1, \"b\": [true, null]}'') \<and>
   reparar_json (\<lambda>c. False) (0xFEFF # lit ''{}'') \<noteq> 0xFEFF # lit ''{}''"
proof -
  let ?x = "lit ''{\"a\": 1, \"b\": [true, null]}''"
  have i: "intacto (\<lambda>c. False) ?x"
    by (simp add: lit_def intacto_def sin_reparaciones_def strip_chars_def invisibles_def
        patrones_defs)
  have a: "reparar_json (\<lambda>c. False) ?x = ?x"
    by (rule reparar_punto_fijo [of "\<lambda>c. False" ?x, THEN conjunct1, THEN iffD2, OF i])
  have n: "\<not> intacto (\<lambda>c. False) (0xFEFF # lit ''{}'')"
    by (simp add: lit_def intacto_def strip_chars_def invisibles_def)
  have b: "reparar_json (\<lambda>c. False) (0xFEFF # lit ''{}'') \<noteq> 0xFEFF # lit ''{}''"
    using reparar_punto_fijo [of "\<lambda>c. False" "0xFEFF # lit ''{}''", THEN conjunct1] n by simp
  from a b show ?thesis
    by simp
qed

subsection \<open>The end-to-end scenario\<close>







subsection \<open>The bracket counter and strings\<close>



lemma cierre_string:
  "cuerpo_string b \<Longrightarrow>
   buscar_cierre ci cf (b @ dquote # rest) i n True False =
   buscar_cierre ci cf rest (i + length b + 1) n False False"
proof (induction b arbitrary: i rule: cuerpo_string.induct)
  case cs_vacio
  then show ?case by simp
next
  case (cs_simple c w)
  then show ?case by simp
next
  case (cs_escape w c)
  then show ?case by simp
qed

lemma cierre_equilibrado:
  "equilibrado u \<Longrightarrow> 1 \<le> n \<Longrightarrow>
   buscar_cierre lbrace rbrace (u @ rest) i n False False =
   buscar_cierre lbrace rbrace rest (i + length u) n False False"
proof (induction u arbitrary: i n rest rule: equilibrado.induct)
  case eq_vacio
  then show ?case by simp
next
  case (eq_simple c w)
  then show ?case by simp
next
  case (eq_string b w)
  have "buscar_cierre lbrace rbrace ((dquote # b @ dquote # w) @ rest) i n False False =
        buscar_cierre lbrace rbrace (b @ dquote # (w @ rest)) (i + 1) n True False"
    by simp
  also have "\<dots> = buscar_cierre lbrace rbrace (w @ rest) (i + 1 + length b + 1) n False False"
    by (rule cierre_string [OF eq_string.hyps(1)])
  also have "\<dots> = buscar_cierre lbrace rbrace rest (i + 1 + length b + 1 + length w) n False False"
    by (rule eq_string.IH [OF eq_string.prems])
  finally show ?case by (simp add: add.assoc)
next
  case (eq_objeto u w)
  have n1: "1 \<le> n + 1"
    using eq_objeto.prems by simp
  have "buscar_cierre lbrace rbrace ((lbrace # u @ rbrace # w) @ rest) i n False False =
        buscar_cierre lbrace rbrace (u @ rbrace # (w @ rest)) (i + 1) (n + 1) False False"
    by simp
  also have "\<dots> = buscar_cierre lbrace rbrace (rbrace # (w @ rest)) (i + 1 + length u) (n + 1) False False"
    by (rule eq_objeto.IH(1) [OF n1])
  also have "\<dots> = buscar_cierre lbrace rbrace (w @ rest) (i + 1 + length u + 1) n False False"
    using eq_objeto.prems by simp
  also have "\<dots> = buscar_cierre lbrace rbrace rest (i + 1 + length u + 1 + length w) n False False"
    by (rule eq_objeto.IH(2) [OF eq_objeto.prems])
  finally show ?case by (simp add: add.assoc)
qed

lemma cierre_objeto:
  assumes "equilibrado u"
  shows "buscar_cierre lbrace rbrace (lbrace # u @ rbrace # rest) i 0 False False =
         int i + int (length u) + 2"
proof -
  have "buscar_cierre lbrace rbrace (lbrace # u @ rbrace # rest) i 0 False False =
        buscar_cierre lbrace rbrace (u @ rbrace # rest) (i + 1) 1 False False"
    by simp
  also have "\<dots> = buscar_cierre lbrace rbrace (rbrace # rest) (i + 1 + length u) 1 False False"
    by (rule cierre_equilibrado [OF assms]) simp
  also have "\<dots> = int i + int (length u) + 2"
    by simp
  finally show ?thesis .
qed

lemma matches_ci_backtick: "matches_ci (backtick) c \<Longrightarrow> c = backtick"
  by (simp add: matches_ci_def)

lemma match_prefix_cerca:
  "match_prefix_ci (backtick # backtick # backtick # x) s = Some r \<Longrightarrow> take 3 s = (lit ''```'')"
  by (cases s; cases "tl s"; cases "tl (tl s)")
     (auto simp add: lit_def matches_ci_def split: if_splits)

lemma search_sin_cerca:
  "\<not> tiene_cerca s \<Longrightarrow> re_search_fence (backtick # backtick # backtick # x) s = None"
proof (induction s)
  case Nil
  then show ?case by simp
next
  case (Cons c cs)
  have "match_prefix_ci (backtick # backtick # backtick # x) (c # cs) = None"
  proof (cases "match_prefix_ci (backtick # backtick # backtick # x) (c # cs)")
    case None
    then show ?thesis .
  next
    case (Some r)
    then have "take 3 (c # cs) = (lit ''```'')"
      by (rule match_prefix_cerca)
    then show ?thesis using Cons.prems by simp
  qed
  then show ?case
    using Cons by simp
qed

lemma fenced_sin_cerca:
  "\<not> tiene_cerca s \<Longrightarrow> fenced_candidate (backtick # backtick # backtick # x) s = None"
  by (simp add: fenced_candidate_def search_sin_cerca)

lemma cerca_sufijo: "tiene_cerca ys \<Longrightarrow> tiene_cerca (xs @ ys)"
  by (induction xs) simp_all

lemma take_cerca_prefijo:
  assumes "take 3 xs = (lit ''```'')"
  shows "take 3 (xs @ ys) = (lit ''```'')"
proof -
  have "length (take 3 xs) = 3"
    using assms by simp
  then have "3 \<le> length xs"
    by simp
  then show ?thesis
    using assms by simp
qed

lemma cerca_prefijo: "tiene_cerca xs \<Longrightarrow> tiene_cerca (xs @ ys)"
proof (induction xs)
  case Nil
  then show ?case by simp
next
  case (Cons c cs)
  from Cons.prems have "take 3 (c # cs) = lit ''```'' \<or> tiene_cerca cs"
    by (simp only: tiene_cerca.simps)
  then show ?case
  proof
    assume "take 3 (c # cs) = (lit ''```'')"
    then have "take 3 ((c # cs) @ ys) = (lit ''```'')"
      by (rule take_cerca_prefijo)
    then show ?thesis
      by (simp only: append_Cons tiene_cerca.simps) simp
  next
    assume "tiene_cerca cs"
    then have "tiene_cerca (cs @ ys)"
      by (rule Cons.IH)
    then show ?thesis
      by (simp only: append_Cons tiene_cerca.simps) simp
  qed
qed

lemma cerca_strip: "\<not> tiene_cerca s \<Longrightarrow> \<not> tiene_cerca (strip s)"
proof
  assume a: "\<not> tiene_cerca s" and b: "tiene_cerca (strip s)"
  let ?d = "dropWhile is_space s"
  have "?d = rev (dropWhile is_space (rev ?d)) @ rev (takeWhile is_space (rev ?d))"
    by (metis rev_append rev_rev_ident takeWhile_dropWhile_id)
  then have "tiene_cerca ?d"
    using b cerca_prefijo [of "strip s" "rev (takeWhile is_space (rev ?d))"]
    by (simp add: strip_def)
  moreover have "s = takeWhile is_space s @ ?d"
    by simp
  ultimately have "tiene_cerca s"
    using cerca_sufijo [of ?d "takeWhile is_space s"] by simp
  then show False using a by simp
qed

lemma dropWhile_medio: "\<not> P a \<Longrightarrow> dropWhile P (xs @ a # ys) = dropWhile P xs @ a # ys"
  by (induction xs) simp_all

lemma strip_medio:
  assumes "\<not> is_space a" and "\<not> is_space b"
  shows "strip (pre @ a # m @ b # post) =
           dropWhile is_space pre @ a # m @ b # rev (dropWhile is_space (rev post))"
proof -
  have "dropWhile is_space (pre @ a # m @ b # post) = dropWhile is_space pre @ a # m @ b # post"
    using dropWhile_medio [of is_space a pre "m @ b # post"] assms(1) by simp
  moreover have "dropWhile is_space (rev post @ b # rev m @ a # rev (dropWhile is_space pre)) =
                 dropWhile is_space (rev post) @ b # rev m @ a # rev (dropWhile is_space pre)"
    using dropWhile_medio [of is_space b "rev post" "rev m @ a # rev (dropWhile is_space pre)"]
      assms(2) by simp
  ultimately show ?thesis
    by (simp add: strip_def)
qed
lemma takeWhile_hasta:
  "c \<notin> set pre \<Longrightarrow> takeWhile (\<lambda>x. x \<noteq> c) (pre @ ys) = pre @ takeWhile (\<lambda>x. x \<noteq> c) ys"
  by (induction pre) auto

lemma find_chr_medio:
  "c \<notin> set pre \<Longrightarrow> find_chr c (pre @ c # r) = int (length pre)"
  by (simp add: find_chr_def takeWhile_hasta)

lemma find_chr_despues:
  assumes "c \<notin> set pre" and "c \<noteq> a"
  shows "find_chr c (pre @ a # r) = - 1 \<or> int (length pre) < find_chr c (pre @ a # r)"
  using assms by (simp add: find_chr_def takeWhile_hasta)

lemma extraer_cerca_en_string:
  "extraer_json_de_respuesta (lit ''{\"a\": \"```{b}```\"}'') = Some (lit ''{b}'')"
  by (simp add: lit_def extraer_json_de_respuesta_def fenced_candidate_def closes_fence_def
      starts_bracket_def matches_ci_def strip_def is_space_def)

lemma extraer_corchete_antes:
  "extraer_json_de_respuesta (lit ''see [1]: {\"a\": \"x}y\"}'') = Some (lit ''[1]'')"
  by (simp add: lit_def extraer_json_de_respuesta_def fenced_candidate_def closes_fence_def
      starts_bracket_def matches_ci_def strip_def is_space_def find_chr_def slice_def)

text \<open>
  C8, as the spec has it, fails for some objects and some surrounding texts: a fenced
  block is looked for first, also inside a string value, and the scan starts at the
  first bracket of the text, which may stand before the object.
\<close>

theorem extraer_no_siempre_objeto:
  "extraer_json_de_respuesta (lit ''{\"a\": \"```{b}```\"}'') = Some (lit ''{b}'') \<and>
   extraer_json_de_respuesta (lit ''see [1]: {\"a\": \"x}y\"}'') = Some (lit ''[1]'')"
  using extraer_cerca_en_string extraer_corchete_antes by simp

text \<open>
  C8, amended. For every object (braces, with string literals that may hold braces and
  escaped quotes, and nested objects) embedded in a text that holds no code fence and
  has no \<open>{\<close> or \<open>[\<close> before the object, the extractor returns the whole object: the
  counter counts braces outside strings only, and an escaped quote does not end a
  string.
\<close>

theorem extraer_objeto_con_strings:
  assumes "equilibrado u"
    and "lbrace \<notin> set pre"
    and "lbracket \<notin> set pre"
    and "\<not> tiene_cerca (pre @ lbrace # u @ rbrace # post)"
  shows "extraer_json_de_respuesta (pre @ lbrace # u @ rbrace # post) =
           Some (lbrace # u @ [rbrace])"
proof -
  define pre' where "pre' = dropWhile is_space pre"
  define post' where "post' = rev (dropWhile is_space (rev post))"
  define texto where "texto = pre' @ lbrace # u @ rbrace # post'"
  have st: "strip (pre @ lbrace # u @ rbrace # post) = texto"
    unfolding texto_def pre'_def post'_def
    by (rule strip_medio) (simp_all add: is_space_def)
  have ne: "texto \<noteq> []"
    by (simp add: texto_def)
  have p1: "lbrace \<notin> set pre'"
    using assms(2) set_dropWhileD unfolding pre'_def by fastforce
  have p2: "lbracket \<notin> set pre'"
    using assms(3) set_dropWhileD unfolding pre'_def by fastforce
  have nc: "\<not> tiene_cerca texto"
    using cerca_strip [OF assms(4)] st by simp
  have f1: "fenced_candidate (lit ''```json'') texto = None"
    using fenced_sin_cerca [OF nc, of "(lit ''json'')"] by (simp add: lit_def)
  have f2: "fenced_candidate (lit ''```'') texto = None"
    using fenced_sin_cerca [OF nc, of "[]"] by (simp add: lit_def)
  have io: "find_chr lbrace texto = int (length pre')"
    unfolding texto_def by (rule find_chr_medio [OF p1])
  have ia: "find_chr lbracket texto = - 1 \<or> int (length pre') < find_chr lbracket texto"
    unfolding texto_def by (rule find_chr_despues [OF p2]) simp
  have dr: "drop (length pre') texto = lbrace # u @ rbrace # post'"
    by (simp add: texto_def)
  have fin: "buscar_cierre lbrace rbrace (drop (length pre') texto) (length pre') 0 False False =
               int (length pre') + int (length u) + 2"
    unfolding dr by (rule cierre_objeto [OF assms(1)])
  have sl: "slice texto (int (length pre')) (int (length pre') + int (length u) + 2) =
              lbrace # u @ [rbrace]"
    by (simp add: slice_def dr nat_add_distrib)
  have "extraer_json_de_respuesta (pre @ lbrace # u @ rbrace # post) =
          (let inicio_obj = find_chr lbrace texto;
               inicio_arr = find_chr lbracket texto
           in if inicio_obj = - 1 \<and> inicio_arr = - 1 then None
              else
                let (inicio, char_inicio, char_fin) =
                      (if inicio_obj = - 1 then (inicio_arr, lbracket, rbracket)
                       else if inicio_arr = - 1 then (inicio_obj, lbrace, rbrace)
                       else if inicio_obj < inicio_arr then (inicio_obj, lbrace, rbrace)
                       else (inicio_arr, lbracket, rbracket));
                    fin = buscar_cierre char_inicio char_fin (drop (nat inicio) texto)
                            (nat inicio) 0 False False
                in if fin > inicio then Some (slice texto inicio fin) else None)"
    using ne by (simp add: extraer_json_de_respuesta_def st f1 f2)
  also have "\<dots> = Some (lbrace # u @ [rbrace])"
    using ia by (auto simp add: io fin sl)
  finally show ?thesis .
qed

theorem extraer_objeto_con_strings_witness:
  "extraer_json_de_respuesta (lit ''Here: {\"a\": \"x}y\"} done'') = Some (lit ''{\"a\": \"x}y\"}'')"
proof -
  have s1: "cuerpo_string (lit ''a'')"
    unfolding lit_def by simp (intro cuerpo_string.intros, simp_all)
  have s2: "cuerpo_string (lit ''x}y'')"
    unfolding lit_def by simp (intro cuerpo_string.intros, simp_all)
  have e1: "equilibrado (dquote # lit ''x}y'' @ dquote # [])"
    by (rule eq_string [OF s2 eq_vacio])
  have e2: "equilibrado (colon # 0x20 # dquote # lit ''x}y'' @ dquote # [])"
    by (intro eq_simple e1) simp_all
  have e3: "equilibrado (dquote # lit ''a'' @ dquote # colon # 0x20 # dquote # lit ''x}y'' @ dquote # [])"
    by (rule eq_string [OF s1 e2])
  have h1: "equilibrado (lit ''\"a\": \"x}y\"'')"
    using e3 by (simp add: lit_def)
  have h2: "lbrace \<notin> set (lit ''Here: '')"
    by (simp add: lit_def)
  have h3: "lbracket \<notin> set (lit ''Here: '')"
    by (simp add: lit_def)
  have h4: "\<not> tiene_cerca (lit ''Here: '' @ lbrace # lit ''\"a\": \"x}y\"'' @ rbrace # lit '' done'')"
    by (simp add: lit_def)
  show ?thesis
    using extraer_objeto_con_strings [OF h1 h2 h3 h4] by (simp add: lit_def)
qed


end
